theory Spec2Isabelle
  imports Main "HOL-Library.Word"
begin

section \<open>The associative buffer of \<open>src/app/cmd/libs/map.cpp\<close>\<close>

text \<open>
  The class \<open>Map\<close> keeps an array of \<open>Entry\<close> values obtained from \<open>malloc\<close>/\<open>realloc\<close>,
  together with two \<open>size_t\<close> counters. The embedding follows the LP64 data model:
  \<open>size_t\<close> is a 64-bit word, a pointer takes 8 bytes, so \<open>sizeof(Entry) = 16\<close>.
  A \<open>const char*\<close> is an address; the text it points to lives in a memory that the
  container never writes.
\<close>

subsection \<open>Data\<close>

type_synonym size_t = "64 word"

type_synonym ptr = nat

definition nullptr :: ptr where
  "nullptr = 0"

text \<open>
  The caller's memory: \<open>mem p = Some bs\<close> says that readable bytes \<open>bs\<close> start at address
  \<open>p\<close> and that a terminating NUL follows them (a NUL inside \<open>bs\<close> ends the C string
  earlier); \<open>None\<close> says that \<open>p\<close> does not point to a string.
\<close>

type_synonym memory = "ptr \<Rightarrow> string option"

record Entry =
  key :: ptr
  value_p :: ptr

text \<open>
  \<open>entries\<close> is the block behind the pointer of the same name: one list element for each
  \<open>Entry\<close> slot of the block, \<open>None\<close> for a slot that has not been written since the
  allocation. The null pointer has no slot behind it, no more than the result of a
  request for 0 bytes: both are the empty list, and every access through them is
  undefined.
\<close>

record Map =
  entries :: "Entry option list"
  size_m :: size_t
  capacity :: size_t

definition NULL :: "Entry option list" where
  "NULL = []"

datatype error = Out_Of_Bounds | Uninitialised_Read | Invalid_Pointer

subsection \<open>Strings and \<open>strcmp\<close>\<close>

definition NUL :: char where
  "NUL = CHR 0x00"

definition deref :: "memory \<Rightarrow> ptr \<Rightarrow> string option" where
  "deref mem p = (if p = nullptr then None else mem p)"

text \<open>The content of the C string at \<open>p\<close>: the bytes before the first NUL.\<close>

definition content :: "memory \<Rightarrow> ptr \<Rightarrow> string option" where
  "content mem p = map_option (takeWhile (\<lambda>c. c \<noteq> NUL)) (deref mem p)"

text \<open>
  \<open>strcmp\<close> of the C library (ISO C 7.24.4.2): the bytes are compared as
  \<open>unsigned char\<close> up to the first difference or the common terminator. The end of a
  list stands for the terminator.
\<close>

fun strcmp :: "string \<Rightarrow> string \<Rightarrow> int" where
  "strcmp (a # as) (b # bs) =
     (if a = b then (if a = NUL then 0 else strcmp as bs)
      else int (of_char a) - int (of_char b))"
| "strcmp [] (b # bs) = - int (of_char b)"
| "strcmp (a # as) [] = int (of_char a)"
| "strcmp [] [] = 0"

text \<open>\<open>strcmp(a, b) == 0\<close> on two pointers; undefined when one of them is no string.\<close>

definition key_matches :: "memory \<Rightarrow> ptr \<Rightarrow> ptr \<Rightarrow> error + bool" where
  "key_matches mem a b =
     (case deref mem a of
        None \<Rightarrow> Inl Invalid_Pointer
      | Some s \<Rightarrow>
          (case deref mem b of
             None \<Rightarrow> Inl Invalid_Pointer
           | Some t \<Rightarrow> Inr (strcmp s t = 0)))"

subsection \<open>Allocation\<close>

definition sizeof_Entry :: size_t where
  "sizeof_Entry = 16"

text \<open>
  \<open>malloc(capacity * sizeof(Entry))\<close> and \<open>realloc(entries, capacity * sizeof(Entry))\<close>
  multiply in \<open>size_t\<close>, so the product wraps modulo \<open>2 ^ 64\<close>. \<open>alloc_slots c\<close> is the
  number of whole \<open>Entry\<close> slots in a block of that many bytes.
\<close>

definition alloc_slots :: "size_t \<Rightarrow> nat" where
  "alloc_slots c = unat (c * sizeof_Entry) div unat sizeof_Entry"

text \<open>The largest number of slots whose byte size fits \<open>size_t\<close>, plus one.\<close>

definition max_slots :: nat where
  "max_slots = 2 ^ 64 div unat sizeof_Entry"

text \<open>
  The allocator either returns a block of the size requested or refuses and returns
  the null pointer. Which of the two happens is not decided by the program, so it is
  an argument of the model: \<open>granted\<close> tells whether the request is met. A fresh block
  holds unwritten slots; \<open>realloc\<close> keeps the old contents up to the smaller of the two
  sizes.
\<close>

definition malloc :: "bool \<Rightarrow> nat \<Rightarrow> Entry option list" where
  "malloc granted n = (if granted then replicate n None else NULL)"

definition realloc :: "bool \<Rightarrow> Entry option list \<Rightarrow> nat \<Rightarrow> Entry option list" where
  "realloc granted buf n =
     (if granted then take n buf @ replicate (n - length buf) None else NULL)"

subsection \<open>The methods\<close>

text \<open>
  The constructor \<open>Map(size_t initial_capacity)\<close>. It checks neither its argument nor
  what \<open>malloc\<close> returns.
\<close>

definition Map_new :: "bool \<Rightarrow> size_t \<Rightarrow> Map" where
  "Map_new granted initial_capacity =
     \<lparr>entries = malloc granted (alloc_slots initial_capacity), size_m = 0,
      capacity = initial_capacity\<rparr>"

text \<open>
  The conditional at the head of \<open>put\<close>. What \<open>realloc\<close> returns replaces \<open>entries\<close>
  without a test.
\<close>

definition grow :: "bool \<Rightarrow> Map \<Rightarrow> Map" where
  "grow granted m =
     (if size_m m = capacity m
      then m\<lparr>capacity := capacity m * 2,
             entries := realloc granted (entries m) (alloc_slots (capacity m * 2))\<rparr>
      else m)"

text \<open>
  \<open>entries[size++] = {key, value}\<close>: a store outside the block, and so every store
  through the null pointer, is undefined behaviour and ends the model's run with
  \<open>Out_Of_Bounds\<close>.
\<close>

definition store :: "ptr \<Rightarrow> ptr \<Rightarrow> Map \<Rightarrow> error + Map" where
  "store k v m =
     (if unat (size_m m) < length (entries m)
      then Inr (m\<lparr>entries := (entries m)[unat (size_m m) := Some \<lparr>key = k, value_p = v\<rparr>],
                  size_m := size_m m + 1\<rparr>)
      else Inl Out_Of_Bounds)"

definition put :: "bool \<Rightarrow> ptr \<Rightarrow> ptr \<Rightarrow> Map \<Rightarrow> error + Map" where
  "put granted k v m = store k v (grow granted m)"

text \<open>
  The loop of \<open>get\<close>, from index \<open>i\<close> on. Reading a slot outside the block, a slot never
  written, or a key that is no string is undefined behaviour.
\<close>

function get_loop :: "memory \<Rightarrow> Map \<Rightarrow> ptr \<Rightarrow> size_t \<Rightarrow> error + ptr" where
  "get_loop mem m k i =
     (if i < size_m m then
        (if unat i < length (entries m) then
           (case entries m ! unat i of
              None \<Rightarrow> Inl Uninitialised_Read
            | Some e \<Rightarrow>
                (case key_matches mem (key e) k of
                   Inl err \<Rightarrow> Inl err
                 | Inr True \<Rightarrow> Inr (value_p e)
                 | Inr False \<Rightarrow> get_loop mem m k (i + 1)))
         else Inl Out_Of_Bounds)
      else Inr nullptr)"
  by pat_completeness auto
termination
proof (relation "measure (\<lambda>(mem, m, k, i). unat (size_m m) - unat i)")
  show "wf (measure (\<lambda>(mem, m, k, i). unat (size_m m) - unat i))"
    by simp
next
  fix mem :: memory and m :: Map and k :: ptr and i :: size_t
  assume less: "i < size_m m"
  then have "unat i < unat (size_m m)"
    by (simp add: word_less_nat_alt)
  moreover have "unat (size_m m) < 2 ^ 64"
    using unsigned_less [of "size_m m"] by simp
  moreover have "unat (i + 1) = (unat i + 1) mod 2 ^ 64"
    by (simp add: unat_word_ariths)
  ultimately show "((mem, m, k, i + 1), (mem, m, k, i))
      \<in> measure (\<lambda>(mem, m, k, i). unat (size_m m) - unat i)"
    by simp
qed

definition get :: "memory \<Rightarrow> Map \<Rightarrow> ptr \<Rightarrow> error + ptr" where
  "get mem m k = get_loop mem m k 0"

text \<open>
  A sequence of \<open>put\<close> calls; the run ends at the first undefined store. \<open>al i\<close> tells
  whether the allocator meets the request of the \<open>put\<close> call number \<open>i\<close>, counted from 0,
  should that call make one.
\<close>

type_synonym allocator = "nat \<Rightarrow> bool"

fun puts :: "allocator \<Rightarrow> (ptr \<times> ptr) list \<Rightarrow> Map \<Rightarrow> error + Map" where
  "puts al [] m = Inr m"
| "puts al ((k, v) # kvs) m =
     (case put (al 0) k v m of
        Inl err \<Rightarrow> Inl err
      | Inr m' \<Rightarrow> puts (\<lambda>i. al (Suc i)) kvs m')"

text \<open>
  A method call on the object, and what it hands back: \<open>put\<close> returns nothing, \<open>get\<close>
  returns a pointer. A run of calls ends at the first undefined step; the \<open>put\<close> calls
  of a run are numbered as above.
\<close>

datatype call = Put ptr ptr | Get ptr

fun exec :: "memory \<Rightarrow> bool \<Rightarrow> call \<Rightarrow> Map \<Rightarrow> error + (Map \<times> ptr option)" where
  "exec mem granted (Put k v) m =
     (case put granted k v m of Inl err \<Rightarrow> Inl err | Inr m' \<Rightarrow> Inr (m', None))"
| "exec mem granted (Get k) m =
     (case get mem m k of Inl err \<Rightarrow> Inl err | Inr r \<Rightarrow> Inr (m, Some r))"

fun run :: "memory \<Rightarrow> allocator \<Rightarrow> call list \<Rightarrow> Map \<Rightarrow> error + (Map \<times> ptr option list)" where
  "run mem al [] m = Inr (m, [])"
| "run mem al (Put k v # cs) m =
     (case exec mem (al 0) (Put k v) m of
        Inl err \<Rightarrow> Inl err
      | Inr (m', r) \<Rightarrow>
          (case run mem (\<lambda>i. al (Suc i)) cs m' of
             Inl err \<Rightarrow> Inl err
           | Inr (m'', rs) \<Rightarrow> Inr (m'', r # rs)))"
| "run mem al (Get k # cs) m =
     (case exec mem (al 0) (Get k) m of
        Inl err \<Rightarrow> Inl err
      | Inr (m', r) \<Rightarrow>
          (case run mem al cs m' of
             Inl err \<Rightarrow> Inl err
           | Inr (m'', rs) \<Rightarrow> Inr (m'', r # rs)))"

fun inserted :: "call list \<Rightarrow> (ptr \<times> ptr) list" where
  "inserted [] = []"
| "inserted (Put k v # cs) = (k, v) # inserted cs"
| "inserted (Get k # cs) = inserted cs"

subsection \<open>Container states\<close>

text \<open>The entries at the indices \<open>0, \<dots>, size - 1\<close>, in this order.\<close>

definition stored :: "Map \<Rightarrow> Entry list" where
  "stored m = map the (take (unat (size_m m)) (entries m))"

definition entry_of :: "ptr \<times> ptr \<Rightarrow> Entry" where
  "entry_of kv = \<lparr>key = fst kv, value_p = snd kv\<rparr>"

text \<open>
  What every state met in a run satisfies: \<open>entries\<close> is the null pointer or a block of
  the size last requested for \<open>capacity\<close>, and the first \<open>size\<close> slots lie inside it and
  have been written.
\<close>

definition Map_inv :: "Map \<Rightarrow> bool" where
  "Map_inv m \<longleftrightarrow>
     (entries m = NULL \<or> length (entries m) = alloc_slots (capacity m)) \<and>
     unat (size_m m) \<le> length (entries m) \<and>
     (\<forall>i < unat (size_m m). entries m ! i \<noteq> None)"

text \<open>
  The next \<open>put\<close> finds a block, and the byte sizes in play fit \<open>size_t\<close>: \<open>entries\<close> is
  not null, the capacity is not zero, the block of \<open>capacity\<close> slots fits, and so does
  the doubled block when the block is full.
\<close>

definition roomy :: "Map \<Rightarrow> bool" where
  "roomy m \<longleftrightarrow>
     entries m \<noteq> NULL \<and> 1 \<le> capacity m \<and> unat (capacity m) < max_slots \<and>
     (size_m m = capacity m \<longrightarrow> 2 * unat (capacity m) < max_slots)"

text \<open>The allocator meets the request of each of the first \<open>n\<close> \<open>put\<close> calls.\<close>

definition grants :: "allocator \<Rightarrow> nat \<Rightarrow> bool" where
  "grants al n \<longleftrightarrow> list_all al [0..<n]"

definition always :: allocator where
  "always i = True"

definition is_string :: "memory \<Rightarrow> ptr \<Rightarrow> bool" where
  "is_string mem p \<longleftrightarrow> deref mem p \<noteq> None"

definition keys_valid :: "memory \<Rightarrow> Entry list \<Rightarrow> bool" where
  "keys_valid mem es \<longleftrightarrow> (\<forall>e \<in> set es. is_string mem (key e))"

text \<open>
  The loop of \<open>get\<close> read on the list of stored entries.
\<close>

fun scan :: "memory \<Rightarrow> Entry list \<Rightarrow> ptr \<Rightarrow> error + ptr" where
  "scan mem [] q = Inr nullptr"
| "scan mem (e # es) q =
     (case key_matches mem (key e) q of
        Inl err \<Rightarrow> Inl err
      | Inr True \<Rightarrow> Inr (value_p e)
      | Inr False \<Rightarrow> scan mem es q)"

text \<open>
  Lookup as the specification words it: go through the entries in insertion order and
  return the value of the first one whose key has the content of the query key; the
  null pointer says that there is none.
\<close>

fun Lookup :: "memory \<Rightarrow> Entry list \<Rightarrow> ptr \<Rightarrow> ptr" where
  "Lookup mem [] q = nullptr"
| "Lookup mem (e # es) q =
     (if content mem (key e) = content mem q then value_p e else Lookup mem es q)"

text \<open>
  A memory and some container states for the examples. The addresses 7 and 8 hold the
  same text, and so do 3 and 10. Keys and values are addresses of this memory.
\<close>

definition mem_ex :: memory where
  "mem_ex = map_of
     [(11, ''a''), (2, ''1''), (3, ''b''), (4, ''2''), (5, ''c''), (6, ''3''),
      (7, ''x''), (8, ''x''), (9, ''z''), (10, ''b''), (12, ''first''), (13, ''second'')]"

definition m_abc :: Map where
  "m_abc =
     \<lparr>entries = [Some \<lparr>key = 11, value_p = 2\<rparr>, Some \<lparr>key = 3, value_p = 4\<rparr>,
                 Some \<lparr>key = 5, value_p = 6\<rparr>, None],
      size_m = 3, capacity = 4\<rparr>"

definition m_full :: Map where
  "m_full =
     \<lparr>entries = [Some \<lparr>key = 11, value_p = 2\<rparr>, Some \<lparr>key = 3, value_p = 4\<rparr>],
      size_m = 2, capacity = 2\<rparr>"

definition m_abc3 :: Map where
  "m_abc3 =
     \<lparr>entries = [Some \<lparr>key = 11, value_p = 2\<rparr>, Some \<lparr>key = 3, value_p = 4\<rparr>,
                 Some \<lparr>key = 5, value_p = 6\<rparr>],
      size_m = 3, capacity = 3\<rparr>"

definition m_xx :: Map where
  "m_xx =
     \<lparr>entries = [Some \<lparr>key = 7, value_p = 12\<rparr>, Some \<lparr>key = 8, value_p = 13\<rparr>],
      size_m = 2, capacity = 2\<rparr>"

definition m_dup :: Map where
  "m_dup =
     \<lparr>entries = [Some \<lparr>key = 11, value_p = 2\<rparr>, Some \<lparr>key = 7, value_p = 12\<rparr>,
                 Some \<lparr>key = 3, value_p = 4\<rparr>, Some \<lparr>key = 8, value_p = 13\<rparr>,
                 Some \<lparr>key = 5, value_p = 6\<rparr>, None, None, None],
      size_m = 5, capacity = 8\<rparr>"

section \<open>Basic facts\<close>

subsection \<open>Strings\<close>

lemma of_char_eq_0_iff: "(of_char c = (0::nat)) = (c = NUL)"
proof -
  have "(of_char c = (of_char NUL :: nat)) = (c = NUL)"
    by (rule of_char_eq_iff)
  then show ?thesis by (simp add: NUL_def)
qed

lemma strcmp_eq_0_iff:
  "strcmp a b = 0 \<longleftrightarrow> takeWhile (\<lambda>c. c \<noteq> NUL) a = takeWhile (\<lambda>c. c \<noteq> NUL) b"
proof (induction a b rule: strcmp.induct)
  case (1 a as b bs)
  show ?case
  proof (cases "a = b")
    case True
    with 1 show ?thesis by simp
  next
    case False
    then have "int (of_char a) \<noteq> int (of_char b)"
      by (simp add: of_char_eq_iff)
    with False show ?thesis by (auto simp: of_char_eq_0_iff)
  qed
next
  case (2 b bs)
  show ?case by (simp add: of_char_eq_0_iff)
next
  case (3 a as)
  show ?case by (simp add: of_char_eq_0_iff)
next
  case 4
  show ?case by simp
qed

lemma key_matches_content:
  assumes "deref mem a = Some s" and "deref mem b = Some t"
  shows "key_matches mem a b = Inr (content mem a = content mem b)"
  using assms by (simp add: key_matches_def content_def strcmp_eq_0_iff)

lemma key_matches_valid:
  "is_string mem a \<Longrightarrow> is_string mem b \<Longrightarrow>
   key_matches mem a b = Inr (content mem a = content mem b)"
  by (auto simp: is_string_def intro: key_matches_content)

subsection \<open>The arithmetic of the allocation\<close>

lemma unat_sizeof_Entry: "unat sizeof_Entry = 16"
  by (simp add: sizeof_Entry_def)

lemma max_slots_eq: "max_slots = 2 ^ 60"
  by (simp add: max_slots_def sizeof_Entry_def)

lemma alloc_slots_mod: "alloc_slots c = unat c mod max_slots"
proof -
  have "unat (c * sizeof_Entry) = (unat c * 16) mod 2 ^ 64"
    by (simp add: unat_word_ariths unat_sizeof_Entry)
  also have "\<dots> = 16 * (unat c mod 2 ^ 60)"
    using mult_mod_right [of 16 "unat c" "2 ^ 60"] by (simp add: mult.commute)
  finally show ?thesis
    by (simp add: alloc_slots_def unat_sizeof_Entry max_slots_eq)
qed

lemma alloc_slots_le: "alloc_slots c \<le> unat c"
  by (simp add: alloc_slots_mod)

lemma alloc_slots_less: "alloc_slots c < max_slots"
  by (simp add: alloc_slots_mod max_slots_eq)

lemma alloc_slots_eq: "unat c < max_slots \<Longrightarrow> alloc_slots c = unat c"
  by (simp add: alloc_slots_mod)

lemma unat_Suc_size:
  fixes s :: size_t
  assumes "unat s < max_slots"
  shows "unat (s + 1) = Suc (unat s)"
proof -
  have "unat (s + 1) = (unat s + 1) mod 2 ^ 64"
    by (simp add: unat_word_ariths)
  moreover have "unat s + 1 < 2 ^ 64"
    using assms by (simp add: max_slots_eq)
  ultimately show ?thesis by simp
qed

lemma unat_double:
  fixes c :: size_t
  assumes "unat c < max_slots"
  shows "unat (c * 2) = 2 * unat c"
proof -
  have "unat (c * 2) = (unat c * 2) mod 2 ^ 64"
    by (simp add: unat_word_ariths)
  moreover have "unat c * 2 < 2 ^ 64"
    using assms by (simp add: max_slots_eq)
  ultimately show ?thesis by simp
qed

subsection \<open>The invariant\<close>

lemma Map_inv_length_le: "Map_inv m \<Longrightarrow> length (entries m) \<le> alloc_slots (capacity m)"
  by (auto simp: Map_inv_def NULL_def)

lemma Map_inv_block:
  "Map_inv m \<Longrightarrow> entries m \<noteq> NULL \<Longrightarrow> length (entries m) = alloc_slots (capacity m)"
  by (simp add: Map_inv_def)

lemma Map_inv_size_le: "Map_inv m \<Longrightarrow> size_m m \<le> capacity m"
  using alloc_slots_le [of "capacity m"] Map_inv_length_le [of m]
  by (simp add: Map_inv_def word_le_nat_alt)

lemma Map_inv_size_less: "Map_inv m \<Longrightarrow> unat (size_m m) < max_slots"
  using alloc_slots_less [of "capacity m"] Map_inv_length_le [of m]
  by (simp add: Map_inv_def)

lemma Map_new_inv: "Map_inv (Map_new a c)"
  by (simp add: Map_inv_def Map_new_def malloc_def NULL_def)

lemma stored_Map_new: "stored (Map_new a c) = []"
  by (simp add: stored_def Map_new_def)

lemma length_stored: "Map_inv m \<Longrightarrow> length (stored m) = unat (size_m m)"
  by (simp add: stored_def Map_inv_def)

lemma stored_nth:
  "Map_inv m \<Longrightarrow> i < unat (size_m m) \<Longrightarrow> entries m ! i = Some (stored m ! i)"
  by (simp add: stored_def Map_inv_def)

subsection \<open>The loop of \<open>get\<close>\<close>

lemma get_loop_scan:
  "Map_inv m \<Longrightarrow> get_loop mem m q i = scan mem (drop (unat i) (stored m)) q"
proof (induction mem m q i rule: get_loop.induct)
  case (1 mem m k i)
  note inv = \<open>Map_inv m\<close>
  show ?case
  proof (cases "i < size_m m")
    case False
    then have "unat (size_m m) \<le> unat i"
      by (simp add: word_less_nat_alt)
    then have "drop (unat i) (stored m) = []"
      using inv by (simp add: length_stored)
    with False show ?thesis
      by (simp add: get_loop.simps [of mem m k i])
  next
    case True
    then have less: "unat i < unat (size_m m)"
      by (simp add: word_less_nat_alt)
    then have in_block: "unat i < length (entries m)"
      using inv by (simp add: Map_inv_def)
    have slot: "entries m ! unat i = Some (stored m ! unat i)"
      using inv less by (rule stored_nth)
    have suc: "unat (i + 1) = Suc (unat i)"
      using less Map_inv_size_less [OF inv] by (intro unat_Suc_size) simp
    have split: "drop (unat i) (stored m) = stored m ! unat i # drop (Suc (unat i)) (stored m)"
      using less inv by (simp add: Cons_nth_drop_Suc length_stored)
    show ?thesis
    proof (cases "key_matches mem (key (stored m ! unat i)) k")
      case (Inl err)
      with True in_block slot split show ?thesis
        by (simp add: get_loop.simps [of mem m k i])
    next
      case (Inr hit)
      show ?thesis
      proof (cases hit)
        case True
        with Inr \<open>i < size_m m\<close> in_block slot split show ?thesis
          by (simp add: get_loop.simps [of mem m k i])
      next
        case False
        have "get_loop mem m k (i + 1) = scan mem (drop (unat (i + 1)) (stored m)) k"
          using "1.IH" [OF \<open>i < size_m m\<close> in_block slot] Inr False inv
          by simp
        with False Inr \<open>i < size_m m\<close> in_block slot split suc show ?thesis
          by (simp add: get_loop.simps [of mem m k i])
      qed
    qed
  qed
qed

lemma get_scan: "Map_inv m \<Longrightarrow> get mem m q = scan mem (stored m) q"
  using get_loop_scan [where m = m and i = 0 and mem = mem and q = q] by (simp add: get_def)

lemma scan_Lookup:
  "keys_valid mem es \<Longrightarrow> is_string mem q \<Longrightarrow> scan mem es q = Inr (Lookup mem es q)"
  by (induction es) (simp_all add: keys_valid_def key_matches_valid)

lemma scan_first_match:
  assumes "keys_valid mem xs" and "is_string mem (key e)" and "is_string mem q"
    and "\<forall>x \<in> set xs. content mem (key x) \<noteq> content mem q"
    and "content mem (key e) = content mem q"
  shows "scan mem (xs @ e # ys) q = Inr (value_p e)"
  using assms(1,4)
proof (induction xs)
  case Nil
  show ?case using assms(2,3,5) by (simp add: key_matches_valid)
next
  case (Cons x xs)
  then show ?case using assms(3) by (simp add: keys_valid_def key_matches_valid)
qed

lemma Lookup_no_match:
  "\<forall>e \<in> set es. content mem (key e) \<noteq> content mem q \<Longrightarrow> Lookup mem es q = nullptr"
  by (induction es) simp_all

lemma Lookup_first_match:
  "i < length es \<Longrightarrow> content mem (key (es ! i)) = content mem q \<Longrightarrow>
   \<forall>j < i. content mem (key (es ! j)) \<noteq> content mem q \<Longrightarrow>
   Lookup mem es q = value_p (es ! i)"
proof (induction es arbitrary: i)
  case Nil
  then show ?case by simp
next
  case (Cons e es)
  show ?case
  proof (cases i)
    case 0
    with Cons.prems show ?thesis by simp
  next
    case (Suc n)
    with Cons.prems(3) have "content mem (key e) \<noteq> content mem q"
      by force
    moreover have "Lookup mem es q = value_p (es ! n)"
    proof (rule Cons.IH)
      show "n < length es" using Cons.prems(1) Suc by simp
      show "content mem (key (es ! n)) = content mem q" using Cons.prems(2) Suc by simp
      show "\<forall>j < n. content mem (key (es ! j)) \<noteq> content mem q"
        using Cons.prems(3) Suc by force
    qed
    ultimately show ?thesis using Suc by simp
  qed
qed

subsection \<open>One insertion\<close>

lemma grow_size: "size_m (grow g m) = size_m m"
  by (simp add: grow_def)

lemma grow_capacity:
  "capacity (grow g m) = (if size_m m = capacity m then capacity m * 2 else capacity m)"
  by (simp add: grow_def)

lemma length_realloc: "length (realloc g buf n) = (if g then n else 0)"
  by (simp add: realloc_def NULL_def min_def)

lemma realloc_nth: "i < length buf \<Longrightarrow> i < n \<Longrightarrow> realloc True buf n ! i = buf ! i"
  by (simp add: realloc_def nth_append)

text \<open>
  When the block that the conditional leaves has the slot at index \<open>size\<close>, it is a
  block of the size requested for the capacity, it holds the old entries, and a
  request that the conditional made was met.
\<close>

lemma grow_room:
  assumes inv: "Map_inv m" and room: "unat (size_m m) < length (entries (grow g m))"
  shows "length (entries (grow g m)) = alloc_slots (capacity (grow g m))"
    and "\<forall>i < unat (size_m m). entries (grow g m) ! i = entries m ! i"
    and "size_m m = capacity m \<Longrightarrow> g"
proof -
  show met: "g" if "size_m m = capacity m"
    using that room by (cases g) (simp_all add: grow_def length_realloc)
  show "length (entries (grow g m)) = alloc_slots (capacity (grow g m))"
  proof (cases "size_m m = capacity m")
    case True
    with met show ?thesis
      by (simp add: grow_def length_realloc)
  next
    case False
    with room have "entries m \<noteq> NULL"
      by (auto simp: grow_def NULL_def)
    with inv False show ?thesis
      by (simp add: grow_def Map_inv_block)
  qed
  show "\<forall>i < unat (size_m m). entries (grow g m) ! i = entries m ! i"
  proof (intro allI impI)
    fix i assume i: "i < unat (size_m m)"
    then have old: "i < length (entries m)"
      using inv by (simp add: Map_inv_def)
    show "entries (grow g m) ! i = entries m ! i"
    proof (cases "size_m m = capacity m")
      case True
      with met have g: "g = True"
        by simp
      from room True have "unat (size_m m) < alloc_slots (capacity m * 2)"
        by (simp add: grow_def length_realloc g)
      with i have "i < alloc_slots (capacity m * 2)"
        by simp
      with old True show ?thesis
        by (simp add: grow_def g realloc_nth)
    next
      case False
      then show ?thesis by (simp add: grow_def)
    qed
  qed
qed

lemma put_Inr:
  assumes inv: "Map_inv m" and ok: "put g k v m = Inr m'"
  shows "Map_inv m'"
    and "stored m' = stored m @ [\<lparr>key = k, value_p = v\<rparr>]"
    and "unat (size_m m') = Suc (unat (size_m m))"
    and "size_m m' = size_m m + 1"
    and "capacity m' = capacity (grow g m)"
    and "\<forall>i < unat (size_m m). entries m' ! i = entries m ! i"
    and "entries m' ! unat (size_m m) = Some \<lparr>key = k, value_p = v\<rparr>"
    and "entries m' \<noteq> NULL"
    and "size_m m = capacity m \<Longrightarrow> g"
proof -
  let ?g = "grow g m"
  let ?n = "unat (size_m m)"
  from ok have room: "?n < length (entries ?g)"
    by (simp add: put_def store_def grow_size split: if_splits)
  from ok room have m': "m' = ?g\<lparr>entries := (entries ?g)[?n := Some \<lparr>key = k, value_p = v\<rparr>],
      size_m := size_m m + 1\<rparr>"
    by (simp add: put_def store_def grow_size)
  note gr = grow_room [OF inv room]
  have len: "length (entries ?g) = alloc_slots (capacity ?g)"
    by (rule gr(1))
  have suc: "unat (size_m m + 1) = Suc ?n"
    using Map_inv_size_less [OF inv] by (rule unat_Suc_size)
  have old: "entries ?g ! i = entries m ! i" if "i < ?n" for i
    using that gr(2) by simp
  show "size_m m = capacity m \<Longrightarrow> g"
    by (rule gr(3))
  show "size_m m' = size_m m + 1" and "capacity m' = capacity (grow g m)"
    by (simp_all add: m')
  show "unat (size_m m') = Suc ?n"
    by (simp add: m' suc)
  show keep: "\<forall>i < ?n. entries m' ! i = entries m ! i"
    by (simp add: m' old)
  show new: "entries m' ! ?n = Some \<lparr>key = k, value_p = v\<rparr>"
    using room by (simp add: m')
  show "entries m' \<noteq> NULL"
    using room by (auto simp: m' NULL_def)
  show "Map_inv m'"
    unfolding Map_inv_def
  proof (intro conjI allI impI)
    show "entries m' = NULL \<or> length (entries m') = alloc_slots (capacity m')"
      using len by (simp add: m')
    show "unat (size_m m') \<le> length (entries m')"
      using room by (simp add: m' suc)
    fix i assume "i < unat (size_m m')"
    then have "i < ?n \<or> i = ?n"
      by (auto simp: m' suc)
    then show "entries m' ! i \<noteq> None"
      using keep new inv by (auto simp: Map_inv_def)
  qed
  have "take (Suc ?n) (entries m') = take ?n (entries m) @ [Some \<lparr>key = k, value_p = v\<rparr>]"
  proof (rule nth_equalityI)
    show "length (take (Suc ?n) (entries m')) = length (take ?n (entries m) @ [Some \<lparr>key = k, value_p = v\<rparr>])"
      using room inv by (simp add: m' Map_inv_def)
  next
    fix i assume "i < length (take (Suc ?n) (entries m'))"
    then have "i < Suc ?n" by simp
    then show "take (Suc ?n) (entries m') ! i = (take ?n (entries m) @ [Some \<lparr>key = k, value_p = v\<rparr>]) ! i"
      using keep new inv by (cases "i = ?n") (auto simp: nth_append Map_inv_def)
  qed
  then show "stored m' = stored m @ [\<lparr>key = k, value_p = v\<rparr>]"
    by (simp add: stored_def m' suc)
qed

lemma put_capacity:
  "Map_inv m \<Longrightarrow> put g k v m = Inr m' \<Longrightarrow>
   capacity m' = (if size_m m = capacity m then capacity m * 2 else capacity m)"
  by (simp add: put_Inr(5) grow_capacity)

lemma full_capacity_less:
  assumes "Map_inv m" and "size_m m = capacity m"
  shows "unat (capacity m) < max_slots"
proof -
  have "unat (capacity m) \<le> alloc_slots (capacity m)"
    using assms Map_inv_length_le [of m] by (simp add: Map_inv_def)
  then show ?thesis
    using alloc_slots_less [of "capacity m"] by simp
qed

lemma full_block:
  assumes "Map_inv m" and "size_m m = capacity m" and "1 \<le> capacity m"
  shows "entries m \<noteq> NULL"
proof -
  have "1 \<le> unat (size_m m)"
    using assms(2,3) by (simp add: word_le_nat_alt)
  then show ?thesis
    using assms(1) by (auto simp: Map_inv_def NULL_def)
qed

lemma grow_capacity_mono:
  assumes "Map_inv m"
  shows "capacity m \<le> capacity (grow g m)"
proof (cases "size_m m = capacity m")
  case True
  then have "unat (capacity m * 2) = 2 * unat (capacity m)"
    using full_capacity_less [OF assms] by (intro unat_double) simp
  with True show ?thesis
    by (simp add: grow_capacity word_le_nat_alt)
next
  case False
  then show ?thesis by (simp add: grow_capacity)
qed

lemma grow_capacity_strict:
  assumes "Map_inv m" and "size_m m = capacity m" and "1 \<le> capacity m"
  shows "capacity m < capacity (grow g m)"
    and "unat (capacity (grow g m)) = 2 * unat (capacity m)"
    and "size_m m < capacity (grow g m)"
proof -
  have double: "unat (capacity m * 2) = 2 * unat (capacity m)"
    using full_capacity_less [OF assms(1,2)] by (rule unat_double)
  have pos: "1 \<le> unat (capacity m)"
    using assms(3) by (simp add: word_le_nat_alt)
  show "unat (capacity (grow g m)) = 2 * unat (capacity m)"
    using assms(2) double by (simp add: grow_capacity)
  show "capacity m < capacity (grow g m)"
    using assms(2) double pos by (simp add: grow_capacity word_less_nat_alt)
  then show "size_m m < capacity (grow g m)"
    using assms(2) by simp
qed

lemma put_effect:
  assumes inv: "Map_inv m" and ok: "put g k v m = Inr m'"
  shows "capacity m' = (if size_m m = capacity m then capacity m * 2 else capacity m) \<and>
    unat (capacity m') =
      (if size_m m = capacity m then 2 * unat (capacity m) else unat (capacity m)) \<and>
    (\<forall>i < unat (size_m m). entries m' ! i = entries m ! i) \<and>
    entries m' ! unat (size_m m) = Some \<lparr>key = k, value_p = v\<rparr> \<and>
    size_m m' = size_m m + 1 \<and> unat (size_m m') = Suc (unat (size_m m)) \<and>
    size_m m' \<le> capacity m'"
proof -
  note p = put_Inr [OF inv ok]
  have cap: "capacity m' = (if size_m m = capacity m then capacity m * 2 else capacity m)"
    using inv ok by (rule put_capacity)
  have "unat (capacity m * 2) = 2 * unat (capacity m)" if "size_m m = capacity m"
    using full_capacity_less [OF inv that] by (rule unat_double)
  then have ucap: "unat (capacity m') =
      (if size_m m = capacity m then 2 * unat (capacity m) else unat (capacity m))"
    using cap by simp
  from cap ucap p(3,4,6,7) Map_inv_size_le [OF p(1)] show ?thesis
    by blast
qed

subsection \<open>Sequences of calls\<close>

lemma grants_iff: "grants al n \<longleftrightarrow> (\<forall>i < n. al i)"
  by (auto simp: grants_def list_all_iff)

lemma grants_always: "grants always n"
  by (simp add: grants_iff always_def)

lemma puts_Inr:
  "Map_inv m \<Longrightarrow> puts al kvs m = Inr m' \<Longrightarrow>
   Map_inv m' \<and> stored m' = stored m @ map entry_of kvs \<and>
   unat (size_m m') = unat (size_m m) + length kvs \<and> capacity m \<le> capacity m'"
proof (induction kvs arbitrary: al m)
  case Nil
  then show ?case by simp
next
  case (Cons kv kvs)
  obtain k v where kv: "kv = (k, v)" by (cases kv)
  from Cons.prems(2) obtain m1 where step: "put (al 0) k v m = Inr m1"
    and rest: "puts (\<lambda>i. al (Suc i)) kvs m1 = Inr m'"
    by (auto simp: kv split: sum.splits)
  note p = put_Inr [OF Cons.prems(1) step]
  have "capacity m \<le> capacity m1"
    using grow_capacity_mono [OF Cons.prems(1)] p(5) by simp
  with Cons.IH [OF p(1) rest] p(2,3) show ?case
    by (auto simp: kv entry_of_def)
qed

lemma stored_puts:
  "Map_inv m0 \<Longrightarrow> puts al kvs m0 = Inr m \<Longrightarrow> stored m = stored m0 @ map entry_of kvs"
  by (simp add: puts_Inr)

lemma puts_append:
  "puts al (xs @ ys) m =
     (case puts al xs m of Inl err \<Rightarrow> Inl err | Inr m1 \<Rightarrow> puts (\<lambda>i. al (length xs + i)) ys m1)"
  by (induction xs arbitrary: al m) (auto split: sum.splits)

lemma puts_prefix:
  assumes "puts al kvs m = Inr m'"
  shows "\<exists>m1. puts al (take n kvs) m = Inr m1"
proof -
  have "puts al (take n kvs @ drop n kvs) m = Inr m'"
    using assms by simp
  then show ?thesis
    unfolding puts_append by (cases "puts al (take n kvs) m") simp_all
qed

lemma puts_below_capacity:
  "Map_inv m \<Longrightarrow> puts al kvs m = Inr m' \<Longrightarrow>
   unat (size_m m) + length kvs \<le> unat (capacity m) \<Longrightarrow> capacity m' = capacity m"
proof (induction kvs arbitrary: al m)
  case Nil
  then show ?case by simp
next
  case (Cons kv kvs)
  obtain k v where kv: "kv = (k, v)" by (cases kv)
  from Cons.prems(2) obtain m1 where step: "put (al 0) k v m = Inr m1"
    and rest: "puts (\<lambda>i. al (Suc i)) kvs m1 = Inr m'"
    by (auto simp: kv split: sum.splits)
  note p = put_Inr [OF Cons.prems(1) step]
  have "unat (size_m m) \<noteq> unat (capacity m)"
    using Cons.prems(3) by simp
  then have "size_m m \<noteq> capacity m"
    by auto
  then have same: "capacity m1 = capacity m"
    using put_capacity [OF Cons.prems(1) step] by simp
  have "unat (size_m m1) + length kvs \<le> unat (capacity m1)"
    using Cons.prems(3) p(3) same by simp
  from Cons.IH [OF p(1) rest this] same show ?case
    by simp
qed

lemma growth_after:
  assumes pos: "1 \<le> c" and len: "length kvs = Suc (unat c)"
    and m: "puts al kvs (Map_new a c) = Inr m"
  shows "Map_inv m \<and> capacity m = c * 2 \<and> c < capacity m \<and> stored m = map entry_of kvs \<and>
    (\<forall>i < length kvs. entries m ! i = Some (entry_of (kvs ! i)))"
proof -
  have zero: "unat (size_m (Map_new a c)) = 0" and cap0: "capacity (Map_new a c) = c"
    by (simp_all add: Map_new_def)
  note pm = puts_Inr [OF Map_new_inv m]
  from len obtain xs kv where kvs: "kvs = xs @ [kv]" and lxs: "length xs = unat c"
    by (metis length_Suc_conv_rev)
  obtain k v where kv: "kv = (k, v)" by (cases kv)
  from m obtain m1 where m1: "puts al xs (Map_new a c) = Inr m1"
    and last: "put (al (length xs)) k v m1 = Inr m"
    by (auto simp: kvs kv puts_append split: sum.splits)
  note p1 = puts_Inr [OF Map_new_inv m1]
  have cap1: "capacity m1 = c"
    using puts_below_capacity [OF Map_new_inv m1] zero cap0 lxs by simp
  have "unat (size_m m1) = unat c"
    using p1 zero lxs by simp
  then have full: "size_m m1 = capacity m1"
    using cap1 by (simp add: word_unat_eq_iff)
  have inv1: "Map_inv m1"
    using p1 by simp
  have cap: "capacity m = c * 2"
    using put_capacity [OF inv1 last] full cap1 by simp
  have "unat c < max_slots"
    using full_capacity_less [OF inv1 full] cap1 by simp
  then have "unat (c * 2) = 2 * unat c"
    by (rule unat_double)
  moreover have "1 \<le> unat c"
    using pos by (simp add: word_le_nat_alt)
  ultimately have less: "c < capacity m"
    by (simp add: cap word_less_nat_alt)
  have st: "stored m = map entry_of kvs"
    using pm by (simp add: stored_Map_new)
  have "entries m ! i = Some (entry_of (kvs ! i))" if "i < length kvs" for i
  proof -
    have "i < unat (size_m m)"
      using that pm zero by simp
    then have "entries m ! i = Some (stored m ! i)"
      using pm by (intro stored_nth) simp
    with that show ?thesis
      by (simp add: st)
  qed
  with pm cap less st show ?thesis
    by blast
qed

lemma run_state:
  "run mem al cs m = Inr (m', rs) \<Longrightarrow> puts al (inserted cs) m = Inr m'"
proof (induction cs arbitrary: al m rs)
  case Nil
  then show ?case by simp
next
  case (Cons c cs)
  show ?case
  proof (cases c)
    case (Put k v)
    with Cons.prems obtain m1 rs1 where "put (al 0) k v m = Inr m1"
      and "run mem (\<lambda>i. al (Suc i)) cs m1 = Inr (m', rs1)"
      by (auto split: sum.splits)
    with Cons.IH Put show ?thesis by simp
  next
    case (Get k)
    with Cons.prems obtain rs1 where "run mem al cs m = Inr (m', rs1)"
      by (auto split: sum.splits)
    with Cons.IH Get show ?thesis by simp
  qed
qed

lemma get_of_stored:
  assumes inv: "Map_inv m" and st: "stored m = map entry_of kvs"
    and "\<forall>kv \<in> set kvs. is_string mem (fst kv)" and "is_string mem q"
  shows "get mem m q = Inr (Lookup mem (map entry_of kvs) q)"
proof -
  have "keys_valid mem (map entry_of kvs)"
    using assms(3) by (simp add: keys_valid_def entry_of_def)
  then show ?thesis
    using inv st assms(4) by (simp add: get_scan scan_Lookup)
qed

lemma get_of_distinct_keys:
  assumes inv: "Map_inv m" and st: "stored m = map entry_of kvs"
    and "distinct (map (\<lambda>kv. content mem (fst kv)) kvs)"
    and "\<forall>kv \<in> set kvs. is_string mem (fst kv)"
    and "(k, v) \<in> set kvs"
  shows "get mem m k = Inr v"
proof -
  from assms(5) obtain xs ys where kvs: "kvs = xs @ (k, v) # ys"
    by (auto dest: split_list)
  have "content mem k \<notin> (\<lambda>kv. content mem (fst kv)) ` set xs"
    using assms(3) by (simp add: kvs)
  then have no: "\<forall>x \<in> set (map entry_of xs). content mem (key x) \<noteq> content mem k"
    by (force simp: entry_of_def image_iff)
  have "scan mem (map entry_of xs @ entry_of (k, v) # map entry_of ys) k
      = Inr (value_p (entry_of (k, v)))"
    using assms(4) no by (intro scan_first_match) (auto simp: kvs keys_valid_def entry_of_def)
  then show ?thesis
    using inv st by (simp add: get_scan kvs entry_of_def)
qed

subsection \<open>When insertions return\<close>

text \<open>
  A \<open>put\<close> ends in \<open>Out_Of_Bounds\<close> when the block lacks the slot at index \<open>size\<close>. This
  is so once the allocator has refused a request, since the null pointer is stored
  untested; it is so for the capacity 0; and it is so where a byte count has wrapped.
  Otherwise \<open>put\<close> returns: every insertion does as long as each request is met and the
  capacity, doubled when the block is full, stays below \<open>max_slots\<close>. The statements
  about the state after insertions speak of the runs in which every \<open>put\<close> has
  returned, whatever the allocator answered, and say when all of them do.
\<close>

lemma put_total:
  assumes inv: "Map_inv m" and roomy: "roomy m" and met: "size_m m = capacity m \<Longrightarrow> g"
  shows "\<exists>m'. put g k v m = Inr m'"
proof -
  have le: "unat (size_m m) \<le> unat (capacity m)"
    using Map_inv_size_le [OF inv] by (simp add: word_le_nat_alt)
  have pos: "1 \<le> unat (capacity m)"
    using roomy by (simp add: roomy_def word_le_nat_alt)
  have "unat (size_m m) < length (entries (grow g m))"
  proof (cases "size_m m = capacity m")
    case True
    then have small: "2 * unat (capacity m) < max_slots"
      using roomy by (simp add: roomy_def)
    then have "unat (capacity m * 2) = 2 * unat (capacity m)"
      by (intro unat_double) simp
    then have "alloc_slots (capacity m * 2) = 2 * unat (capacity m)"
      using small by (simp add: alloc_slots_eq)
    with True pos met show ?thesis
      by (simp add: grow_def length_realloc)
  next
    case False
    then have "unat (size_m m) \<noteq> unat (capacity m)"
      by (simp add: word_unat_eq_iff)
    moreover have "length (entries m) = unat (capacity m)"
      using inv roomy by (simp add: Map_inv_block roomy_def alloc_slots_eq)
    ultimately show ?thesis
      using False le by (simp add: grow_def)
  qed
  then show ?thesis
    by (simp add: put_def store_def grow_size)
qed

lemma puts_total:
  "Map_inv m \<Longrightarrow> entries m \<noteq> NULL \<Longrightarrow> 1 \<le> capacity m \<Longrightarrow> unat (capacity m) < max_slots \<Longrightarrow>
   2 * (unat (size_m m) + length kvs) \<le> max_slots \<Longrightarrow> grants al (length kvs) \<Longrightarrow>
   \<exists>m'. puts al kvs m = Inr m'"
proof (induction kvs arbitrary: al m)
  case Nil
  then show ?case by simp
next
  case (Cons kv kvs)
  obtain k v where kv: "kv = (k, v)" by (cases kv)
  have now: "al 0" and later: "grants (\<lambda>i. al (Suc i)) (length kvs)"
    using Cons.prems(6) by (auto simp: grants_iff)
  have full: "2 * unat (capacity m) < max_slots" if "size_m m = capacity m"
    using that Cons.prems(5) by simp
  then have "roomy m"
    using Cons.prems(2,3,4) by (simp add: roomy_def)
  from put_total [OF Cons.prems(1) this now] obtain m1 where step: "put (al 0) k v m = Inr m1"
    by blast
  note p = put_Inr [OF Cons.prems(1) step]
  have cap1: "unat (capacity m1) < max_slots"
  proof (cases "size_m m = capacity m")
    case True
    then have "unat (capacity m * 2) = 2 * unat (capacity m)"
      using Cons.prems(4) by (intro unat_double)
    with True full show ?thesis by (simp add: p(5) grow_capacity)
  next
    case False
    with Cons.prems(4) show ?thesis by (simp add: p(5) grow_capacity)
  qed
  have "capacity m \<le> capacity m1"
    using grow_capacity_mono [OF Cons.prems(1)] p(5) by simp
  with Cons.prems(3) have pos1: "1 \<le> capacity m1"
    by simp
  have "2 * (unat (size_m m1) + length kvs) \<le> max_slots"
    using Cons.prems(5) p(3) by simp
  from Cons.IH [OF p(1) p(8) pos1 cap1 this later] step show ?case
    by (simp add: kv)
qed

lemma Map_new_block:
  assumes "1 \<le> c" and "unat c < max_slots"
  shows "entries (Map_new True c) \<noteq> NULL"
proof -
  have "1 \<le> alloc_slots c"
    using assms by (simp add: alloc_slots_eq word_le_nat_alt)
  then show ?thesis
    by (auto simp: Map_new_def malloc_def NULL_def)
qed

lemma puts_Map_new_total:
  assumes "1 \<le> c" and "unat c < max_slots" and "2 * length kvs \<le> max_slots"
    and "grants al (length kvs)"
  shows "\<exists>m. puts al kvs (Map_new True c) = Inr m"
proof (rule puts_total [OF Map_new_inv])
  show "entries (Map_new True c) \<noteq> NULL"
    using assms(1,2) by (rule Map_new_block)
  show "1 \<le> capacity (Map_new True c)" and "unat (capacity (Map_new True c)) < max_slots"
    using assms(1,2) by (simp_all add: Map_new_def)
  show "2 * (unat (size_m (Map_new True c)) + length kvs) \<le> max_slots"
    using assms(3) by (simp add: Map_new_def)
  show "grants al (length kvs)"
    by (rule assms(4))
qed

text \<open>After a refused \<open>malloc\<close> no \<open>put\<close> returns, and none does when \<open>realloc\<close> refuses.\<close>

lemma put_null_block: "put g k v (Map_new False c) = Inl Out_Of_Bounds"
  by (simp add: put_def store_def grow_def Map_new_def malloc_def realloc_def NULL_def
      alloc_slots_def)

lemma put_refused: "size_m m = capacity m \<Longrightarrow> put False k v m = Inl Out_Of_Bounds"
  by (simp add: put_def store_def grow_def realloc_def NULL_def)

text \<open>A capacity whose byte count wraps to 0, with an allocator that meets every request.\<close>

lemma put_wrapped_block: "put True 11 2 (Map_new True (2 ^ 60)) = Inl Out_Of_Bounds"
  by code_simp

subsection \<open>The example states\<close>

lemma puts_abc: "puts always [(11, 2), (3, 4), (5, 6)] (Map_new True 2) = Inr m_abc"
  unfolding m_abc_def by code_simp

lemma puts_dup:
  "puts always [(11, 2), (7, 12), (3, 4), (8, 13), (5, 6)] (Map_new True 4) = Inr m_dup"
  unfolding m_dup_def by code_simp

lemma puts_full: "puts always [(11, 2), (3, 4)] (Map_new True 2) = Inr m_full"
  unfolding m_full_def by code_simp

lemma puts_abc3: "puts always [(11, 2), (3, 4), (5, 6)] (Map_new True 3) = Inr m_abc3"
  unfolding m_abc3_def by code_simp

lemma puts_xx: "puts always [(7, 12), (8, 13)] (Map_new True 1) = Inr m_xx"
  unfolding m_xx_def by code_simp

lemma put_full: "put True 5 6 m_full = Inr m_abc"
  unfolding m_full_def m_abc_def by code_simp

lemma Map_inv_full: "Map_inv m_full"
  using puts_Inr [OF Map_new_inv puts_full] by simp

lemma Map_inv_abc: "Map_inv m_abc"
  using puts_Inr [OF Map_new_inv puts_abc] by simp

lemma stored_abc:
  "stored m_abc = [\<lparr>key = 11, value_p = 2\<rparr>, \<lparr>key = 3, value_p = 4\<rparr>, \<lparr>key = 5, value_p = 6\<rparr>]"
  by (simp add: stored_def m_abc_def)

lemma is_string_ex:
  "is_string mem_ex 11" "is_string mem_ex 3" "is_string mem_ex 5" "is_string mem_ex 7"
  "is_string mem_ex 8" "is_string mem_ex 9" "is_string mem_ex 10"
  by (simp_all add: is_string_def deref_def nullptr_def mem_ex_def)

lemma content_ex:
  "content mem_ex 11 = Some ''a''" "content mem_ex 3 = Some ''b''"
  "content mem_ex 5 = Some ''c''" "content mem_ex 7 = Some ''x''"
  "content mem_ex 8 = Some ''x''" "content mem_ex 9 = Some ''z''"
  "content mem_ex 10 = Some ''b''"
  by (simp_all add: content_def deref_def nullptr_def mem_ex_def NUL_def)

lemma keys_valid_abc: "keys_valid mem_ex (stored m_abc)"
  by (simp add: stored_abc keys_valid_def is_string_ex)

section \<open>Lookup\<close>

text \<open>
  Claim C5 (lookup miss). In a container state whose stored keys and query key are
  strings, a query key whose content equals the content of no stored key makes \<open>get\<close>
  return the null pointer, the "not found" signal; and \<open>get\<close> on a freshly constructed
  container returns the null pointer for every query and every initial capacity,
  whatever \<open>malloc\<close> returned.
\<close>

theorem get_miss_nullptr:
  "(Map_inv m \<and> keys_valid mem (stored m) \<and> is_string mem q \<and>
    (\<forall>e \<in> set (stored m). content mem (key e) \<noteq> content mem q)
      \<longrightarrow> get mem m q = Inr nullptr) \<and>
   get mem (Map_new a c) q = Inr nullptr"
proof (intro conjI impI)
  assume a: "Map_inv m \<and> keys_valid mem (stored m) \<and> is_string mem q \<and>
    (\<forall>e \<in> set (stored m). content mem (key e) \<noteq> content mem q)"
  then have "get mem m q = Inr (Lookup mem (stored m) q)"
    by (simp add: get_scan scan_Lookup)
  with a show "get mem m q = Inr nullptr"
    by (simp add: Lookup_no_match)
next
  show "get mem (Map_new a c) q = Inr nullptr"
    by (simp add: get_scan Map_new_inv stored_Map_new)
qed

theorem get_miss_nullptr_witness:
  "Map_inv m_abc \<and> keys_valid mem_ex (stored m_abc) \<and> is_string mem_ex 9 \<and>
   content mem_ex 9 \<notin> set (map (\<lambda>e. content mem_ex (key e)) (stored m_abc)) \<and>
   get mem_ex m_abc 9 = Inr nullptr \<and> get mem_ex (Map_new True 2) 9 = Inr nullptr"
proof -
  have h: "Map_inv m_abc \<and> keys_valid mem_ex (stored m_abc) \<and> is_string mem_ex 9 \<and>
      (\<forall>e \<in> set (stored m_abc). content mem_ex (key e) \<noteq> content mem_ex 9)"
    using Map_inv_abc keys_valid_abc by (simp add: is_string_ex stored_abc content_ex)
  moreover have "content mem_ex 9 \<notin> set (map (\<lambda>e. content mem_ex (key e)) (stored m_abc))"
    by (simp add: stored_abc content_ex)
  ultimately show ?thesis
    using get_miss_nullptr [of m_abc mem_ex 9 True 2] by blast
qed

text \<open>
  Claim C7 (keys are compared by content). In a container state whose stored keys and
  query key are strings, \<open>get\<close> returns what a scan in insertion order by content
  equality returns: the value of the entry at the least index \<open>i < size\<close> whose key has
  the content of the query key. Only the content of the query key matters: a second
  pointer to equal text gives the same result, and where every stored key differs in
  content from the query key no entry is matched and the result is the null pointer.
\<close>

theorem get_compares_content:
  assumes "Map_inv m" and "keys_valid mem (stored m)" and "is_string mem q"
  shows "get mem m q = Inr (Lookup mem (stored m) q) \<and>
    (\<forall>i e. i < unat (size_m m) \<and> entries m ! i = Some e \<and>
        content mem (key e) = content mem q \<and>
        (\<forall>j e'. j < i \<and> entries m ! j = Some e' \<longrightarrow> content mem (key e') \<noteq> content mem q)
      \<longrightarrow> get mem m q = Inr (value_p e)) \<and>
    (\<forall>q'. is_string mem q' \<and> content mem q' = content mem q \<longrightarrow> get mem m q' = get mem m q) \<and>
    ((\<forall>i e. i < unat (size_m m) \<and> entries m ! i = Some e \<longrightarrow>
         content mem (key e) \<noteq> content mem q)
      \<longrightarrow> get mem m q = Inr nullptr)"
proof (intro conjI allI impI)
  show eq: "get mem m q = Inr (Lookup mem (stored m) q)"
    using assms by (simp add: get_scan scan_Lookup)
next
  assume none: "\<forall>i e. i < unat (size_m m) \<and> entries m ! i = Some e \<longrightarrow>
         content mem (key e) \<noteq> content mem q"
  have "\<forall>e \<in> set (stored m). content mem (key e) \<noteq> content mem q"
  proof
    fix e assume "e \<in> set (stored m)"
    then obtain i where i: "i < length (stored m)" and e: "stored m ! i = e"
      by (auto simp: in_set_conv_nth)
    then have "i < unat (size_m m)" and "entries m ! i = Some e"
      using assms(1) stored_nth [OF assms(1), of i] by (simp_all add: length_stored)
    with none show "content mem (key e) \<noteq> content mem q"
      by blast
  qed
  then show "get mem m q = Inr nullptr"
    using assms by (simp add: get_scan scan_Lookup Lookup_no_match)
next
  fix i e
  assume a: "i < unat (size_m m) \<and> entries m ! i = Some e \<and>
        content mem (key e) = content mem q \<and>
        (\<forall>j e'. j < i \<and> entries m ! j = Some e' \<longrightarrow> content mem (key e') \<noteq> content mem q)"
  then have i: "i < length (stored m)"
    using assms(1) by (simp add: length_stored)
  from a have e: "stored m ! i = e"
    using stored_nth [OF assms(1), of i] by simp
  have before: "\<forall>j < i. content mem (key (stored m ! j)) \<noteq> content mem q"
  proof (intro allI impI)
    fix j assume "j < i"
    moreover from this a have "entries m ! j = Some (stored m ! j)"
      by (intro stored_nth [OF assms(1)]) simp
    ultimately show "content mem (key (stored m ! j)) \<noteq> content mem q"
      using a by blast
  qed
  have "Lookup mem (stored m) q = value_p (stored m ! i)"
    using i before a e by (intro Lookup_first_match) simp_all
  then show "get mem m q = Inr (value_p e)"
    using assms e by (simp add: get_scan scan_Lookup)
next
  fix q'
  assume a: "is_string mem q' \<and> content mem q' = content mem q"
  have "Lookup mem es q' = Lookup mem es q" for es
    using a by (induction es) simp_all
  then show "get mem m q' = get mem m q"
    using assms a by (simp add: get_scan scan_Lookup)
qed

theorem get_compares_content_witness:
  "Map_inv m_abc \<and> keys_valid mem_ex (stored m_abc) \<and> is_string mem_ex 10 \<and>
   (1::nat) < unat (size_m m_abc) \<and> entries m_abc ! 1 = Some \<lparr>key = 3, value_p = 4\<rparr> \<and>
   content mem_ex (key \<lparr>key = 3, value_p = 4\<rparr>) = content mem_ex 10 \<and>
   entries m_abc ! 0 = Some \<lparr>key = 11, value_p = 2\<rparr> \<and>
   content mem_ex (key \<lparr>key = 11, value_p = 2\<rparr>) \<noteq> content mem_ex 10 \<and>
   is_string mem_ex 3 \<and> content mem_ex 3 = content mem_ex 10 \<and>
   get mem_ex m_abc 10 = Inr 4 \<and> get mem_ex m_abc 3 = Inr 4"
proof -
  have h1: "Map_inv m_abc" "keys_valid mem_ex (stored m_abc)" "is_string mem_ex 10"
    by (simp_all add: Map_inv_abc keys_valid_abc is_string_ex)
  have h2: "(1::nat) < unat (size_m m_abc) \<and> entries m_abc ! 1 = Some \<lparr>key = 3, value_p = 4\<rparr> \<and>
      content mem_ex (key \<lparr>key = 3, value_p = 4\<rparr>) = content mem_ex 10 \<and>
      (\<forall>j e'. j < (1::nat) \<and> entries m_abc ! j = Some e'
         \<longrightarrow> content mem_ex (key e') \<noteq> content mem_ex 10)"
    by (auto simp: m_abc_def content_ex)
  have h3: "is_string mem_ex 3 \<and> content mem_ex 3 = content mem_ex 10"
    by (simp add: is_string_ex content_ex)
  from get_compares_content [OF h1] h2 have "get mem_ex m_abc 10 = Inr 4"
    by fastforce
  moreover from get_compares_content [OF h1] h3 have "get mem_ex m_abc 3 = get mem_ex m_abc 10"
    by blast
  moreover have "entries m_abc ! 0 = Some \<lparr>key = 11, value_p = 2\<rparr> \<and>
      content mem_ex (key \<lparr>key = 11, value_p = 2\<rparr>) \<noteq> content mem_ex 10"
    by (simp add: m_abc_def content_ex)
  ultimately show ?thesis
    using h1 h2 h3 by simp
qed

text \<open>
  Claim C1 (first match wins). Start from any container state, insert pairs \<open>xs\<close>, then
  \<open>(k1, v1)\<close>, then pairs \<open>ys\<close>, then \<open>(k2, v2)\<close> whose key has the content of \<open>k1\<close>, then
  pairs \<open>zs\<close>. If no entry stored before \<open>(k1, v1)\<close> has a key with that content, then
  after these insertions \<open>get\<close> with a key of that content returns \<open>v1\<close>, whatever the
  allocator answered. The insertions all return when the starting state has a block
  for a capacity of at least 1, the allocator meets every request, and twice the final
  number of entries stays within \<open>max_slots\<close>.
\<close>

theorem first_match_wins:
  assumes "Map_inv m0"
    and "kvs = xs @ (k1, v1) # ys @ (k2, v2) # zs"
    and "content mem k2 = content mem k1"
    and "content mem q = content mem k1"
    and "keys_valid mem (stored m0 @ map entry_of xs)"
    and "is_string mem k1" and "is_string mem q"
    and "\<forall>e \<in> set (stored m0 @ map entry_of xs). content mem (key e) \<noteq> content mem k1"
  shows "(\<forall>m. puts al kvs m0 = Inr m \<longrightarrow> get mem m q = Inr v1) \<and>
    (entries m0 \<noteq> NULL \<and> grants al (length kvs) \<and>
     1 \<le> capacity m0 \<and> unat (capacity m0) < max_slots \<and>
     2 * (unat (size_m m0) + length kvs) \<le> max_slots \<longrightarrow> (\<exists>m. puts al kvs m0 = Inr m))"
proof (intro conjI allI impI)
  fix m assume run: "puts al kvs m0 = Inr m"
  let ?e = "entry_of (k1, v1)"
  have inv: "Map_inv m"
    using puts_Inr [OF assms(1) run] by simp
  have "stored m = (stored m0 @ map entry_of xs) @ ?e # map entry_of (ys @ (k2, v2) # zs)"
    using stored_puts [OF assms(1) run] by (simp add: assms(2))
  moreover have "scan mem ((stored m0 @ map entry_of xs) @ ?e # map entry_of (ys @ (k2, v2) # zs)) q
      = Inr (value_p ?e)"
    using assms(4-8) by (intro scan_first_match) (simp_all add: entry_of_def)
  ultimately show "get mem m q = Inr v1"
    using inv by (simp add: get_scan entry_of_def)
next
  assume "entries m0 \<noteq> NULL \<and> grants al (length kvs) \<and>
     1 \<le> capacity m0 \<and> unat (capacity m0) < max_slots \<and>
     2 * (unat (size_m m0) + length kvs) \<le> max_slots"
  then show "\<exists>m. puts al kvs m0 = Inr m"
    using assms(1) by (intro puts_total) simp_all
qed

theorem first_match_wins_witness:
  "Map_inv (Map_new True 4) \<and>
   content mem_ex 8 = content mem_ex 7 \<and>
   keys_valid mem_ex (stored (Map_new True 4) @ map entry_of [(11, 2)]) \<and>
   is_string mem_ex 7 \<and> is_string mem_ex 8 \<and>
   stored (Map_new True 4) @ map entry_of [(11, 2)] = [\<lparr>key = 11, value_p = 2\<rparr>] \<and>
   content mem_ex 11 \<noteq> content mem_ex 7 \<and>
   entries (Map_new True 4) \<noteq> NULL \<and>
   grants always (length [(11, 2), (7, 12), (3, 4), (8, 13), (5, 6) :: ptr \<times> ptr]) \<and>
   1 \<le> capacity (Map_new True 4) \<and> unat (capacity (Map_new True 4)) < max_slots \<and>
   2 * (unat (size_m (Map_new True 4)) +
        length [(11, 2), (7, 12), (3, 4), (8, 13), (5, 6) :: ptr \<times> ptr]) \<le> max_slots \<and>
   puts always [(11, 2), (7, 12), (3, 4), (8, 13), (5, 6)] (Map_new True 4) = Inr m_dup \<and>
   get mem_ex m_dup 8 = Inr 12"
proof -
  let ?kvs = "[(11, 2), (7, 12), (3, 4), (8, 13), (5, 6)] :: (ptr \<times> ptr) list"
  have h2: "?kvs = [(11, 2)] @ (7, 12) # [(3, 4)] @ (8, 13) # [(5, 6)]"
    by simp
  have h3: "content mem_ex 8 = content mem_ex 7"
    by (simp add: content_ex)
  have h5: "keys_valid mem_ex (stored (Map_new True 4) @ map entry_of [(11, 2)])"
    by (simp add: stored_Map_new keys_valid_def entry_of_def is_string_ex)
  have h8: "\<forall>e \<in> set (stored (Map_new True 4) @ map entry_of [(11, 2)]).
      content mem_ex (key e) \<noteq> content mem_ex 7"
    by (simp add: stored_Map_new entry_of_def content_ex)
  note inst = first_match_wins [OF Map_new_inv h2 h3 h3 h5 is_string_ex(4) is_string_ex(5) h8,
      where al = always]
  have b0: "entries (Map_new True 4) \<noteq> NULL"
    by (rule Map_new_block) (simp_all add: max_slots_eq)
  have g: "grants always (length ?kvs)"
    by (rule grants_always)
  have b1: "1 \<le> capacity (Map_new True 4)" and b2: "unat (capacity (Map_new True 4)) < max_slots"
    and b3: "2 * (unat (size_m (Map_new True 4)) + length ?kvs) \<le> max_slots"
    by (simp_all add: Map_new_def max_slots_eq)
  have "entries (Map_new True 4) \<noteq> NULL \<and> grants always (length ?kvs) \<and>
      1 \<le> capacity (Map_new True 4) \<and> unat (capacity (Map_new True 4)) < max_slots \<and>
      2 * (unat (size_m (Map_new True 4)) + length ?kvs) \<le> max_slots"
    using b0 g b1 b2 b3 by (intro conjI)
  from inst [THEN conjunct2, THEN mp, OF this]
  obtain m where m: "puts always ?kvs (Map_new True 4) = Inr m"
    by (elim exE)
  from inst [THEN conjunct1, THEN spec, THEN mp, OF m] have "get mem_ex m 8 = Inr 12" .
  moreover from m puts_dup have "m = m_dup"
    by simp
  ultimately have r: "get mem_ex m_dup 8 = Inr 12"
    by simp
  have e1: "stored (Map_new True 4) @ map entry_of [(11, 2)] = [\<lparr>key = 11, value_p = 2\<rparr>]"
    by (simp add: stored_Map_new entry_of_def)
  have e2: "content mem_ex 11 \<noteq> content mem_ex 7"
    by (simp add: content_ex)
  show ?thesis
    using Map_new_inv h3 h5 is_string_ex(4) is_string_ex(5) e1 e2 b0 g b1 b2 b3 puts_dup r
    by (intro conjI)
qed

text \<open>
  Claim C2 (round trip). Construct a container with an initial capacity of at least 1
  and insert a sequence of pairs whose keys are strings of pairwise distinct content.
  After the insertions, \<open>get\<close> with the key of any pair of the sequence returns the
  value of that pair, whatever the allocator answered. The insertions all return when
  the allocator meets every request and the initial capacity and twice the number of
  pairs stay within \<open>max_slots\<close>.
\<close>

theorem round_trip:
  assumes "1 \<le> c"
    and "distinct (map (\<lambda>kv. content mem (fst kv)) kvs)"
    and "\<forall>kv \<in> set kvs. is_string mem (fst kv)"
  shows "(\<forall>m. puts al kvs (Map_new a c) = Inr m \<longrightarrow>
            (\<forall>kv \<in> set kvs. get mem m (fst kv) = Inr (snd kv))) \<and>
    (grants al (length kvs) \<and> unat c < max_slots \<and> 2 * length kvs \<le> max_slots \<longrightarrow>
       (\<exists>m. puts al kvs (Map_new True c) = Inr m))"
proof (intro conjI allI impI ballI)
  fix m kv assume run: "puts al kvs (Map_new a c) = Inr m" and kv: "kv \<in> set kvs"
  have "Map_inv m" and "stored m = map entry_of kvs"
    using puts_Inr [OF Map_new_inv run] by (simp_all add: stored_Map_new)
  then show "get mem m (fst kv) = Inr (snd kv)"
    using assms(2,3) kv by (intro get_of_distinct_keys [where kvs = kvs]) simp_all
next
  assume "grants al (length kvs) \<and> unat c < max_slots \<and> 2 * length kvs \<le> max_slots"
  then show "\<exists>m. puts al kvs (Map_new True c) = Inr m"
    using assms(1) by (intro puts_Map_new_total) simp_all
qed

theorem round_trip_witness:
  "(1::size_t) \<le> 2 \<and>
   distinct (map (\<lambda>kv. content mem_ex (fst kv)) [(11, 2), (3, 4), (5, 6) :: ptr \<times> ptr]) \<and>
   list_all (\<lambda>kv. is_string mem_ex (fst kv)) [(11, 2), (3, 4), (5, 6) :: ptr \<times> ptr] \<and>
   grants always (length [(11, 2), (3, 4), (5, 6) :: ptr \<times> ptr]) \<and>
   unat (2::size_t) < max_slots \<and>
   2 * length [(11, 2), (3, 4), (5, 6) :: ptr \<times> ptr] \<le> max_slots \<and>
   puts always [(11, 2), (3, 4), (5, 6)] (Map_new True 2) = Inr m_abc \<and>
   get mem_ex m_abc 11 = Inr 2 \<and> get mem_ex m_abc 3 = Inr 4 \<and> get mem_ex m_abc 5 = Inr 6"
proof -
  let ?kvs = "[(11, 2), (3, 4), (5, 6)] :: (ptr \<times> ptr) list"
  have h1: "(1::size_t) \<le> 2"
    by simp
  have h3: "distinct (map (\<lambda>kv. content mem_ex (fst kv)) ?kvs)"
    by (simp add: content_ex)
  have h4: "\<forall>kv \<in> set ?kvs. is_string mem_ex (fst kv)"
    by (simp add: is_string_ex)
  note inst = round_trip [OF h1 h3 h4, where al = always and a = True]
  have g: "grants always (length ?kvs)"
    by (rule grants_always)
  have b1: "unat (2::size_t) < max_slots" and b2: "2 * length ?kvs \<le> max_slots"
    by (simp_all add: max_slots_eq)
  have "grants always (length ?kvs) \<and> unat (2::size_t) < max_slots \<and>
      2 * length ?kvs \<le> max_slots"
    using g b1 b2 by (intro conjI)
  from inst [THEN conjunct2, THEN mp, OF this]
  obtain m where m: "puts always ?kvs (Map_new True 2) = Inr m"
    by (elim exE)
  from inst [THEN conjunct1, THEN spec, THEN mp, OF m]
  have all: "\<forall>kv \<in> set ?kvs. get mem_ex m (fst kv) = Inr (snd kv)" .
  from m puts_abc have "m = m_abc"
    by simp
  with all have r1: "get mem_ex m_abc 11 = Inr 2" and r2: "get mem_ex m_abc 3 = Inr 4"
    and r3: "get mem_ex m_abc 5 = Inr 6"
    by simp_all
  have h4': "list_all (\<lambda>kv. is_string mem_ex (fst kv)) ?kvs"
    using h4 by (simp add: list_all_iff)
  show ?thesis
    using h1 h3 h4' g b1 b2 puts_abc r1 r2 r3 by (intro conjI)
qed

section \<open>Insertion\<close>

text \<open>
  Claim C3 (what \<open>put\<close> does), as the claim words it, asks for an append in every state
  with \<open>size \<le> capacity\<close>. The state that the constructor returns for the capacity 0
  is such a state, the allocator meets every request and no byte size is too large in
  it; yet \<open>put\<close> on it doubles 0 to 0, asks \<open>realloc\<close> for 0 bytes and stores outside the
  block. The claim also has every entry inserted around a growth retrievable with its
  value. The addresses 7 and 8 hold the same text: inserted as keys into a container of
  capacity 1 they cause the growth to 2, the second pair is stored at index 1, and
  \<open>get\<close> with the key of the second pair returns the value of the first.
\<close>

theorem put_zero_capacity:
  "Map_inv (Map_new True 0) \<and> size_m (Map_new True 0) \<le> capacity (Map_new True 0) \<and>
   unat (capacity (Map_new True 0)) < max_slots \<and>
   2 * unat (capacity (Map_new True 0)) < max_slots \<and>
   put True 11 2 (Map_new True 0) = Inl Out_Of_Bounds \<and>
   puts always [(7, 12), (8, 13)] (Map_new True 1) = Inr m_xx \<and>
   capacity m_xx = 2 \<and> entries m_xx ! 1 = Some \<lparr>key = 8, value_p = 13\<rparr> \<and>
   is_string mem_ex 7 \<and> is_string mem_ex 8 \<and>
   get mem_ex m_xx 8 = Inr 12"
proof -
  have "put True 11 2 (Map_new True 0) = Inl Out_Of_Bounds"
    by code_simp
  moreover have "size_m (Map_new True 0) \<le> capacity (Map_new True 0)"
    and "unat (capacity (Map_new True 0)) < max_slots"
    and "2 * unat (capacity (Map_new True 0)) < max_slots"
    by (simp_all add: Map_new_def max_slots_eq)
  moreover have "capacity m_xx = 2"
    and "entries m_xx ! 1 = Some \<lparr>key = 8, value_p = 13\<rparr>"
    by (simp_all add: m_xx_def)
  moreover have "get mem_ex m_xx 8 = Inr 12"
    unfolding m_xx_def by code_simp
  ultimately show ?thesis
    using Map_new_inv [of True 0] puts_xx is_string_ex(4) is_string_ex(5) by (intro conjI)
qed

text \<open>
  Claim C3, amended. Take a container state as the constructor and the insertions
  leave it: \<open>entries\<close> is null or a block of the size requested for the capacity, and
  the first \<open>size\<close> slots lie inside it and have been written, so that the size is at
  most the capacity. Let the capacity be at least 1. A \<open>put\<close> that returns has doubled
  the capacity exactly when \<open>size = capacity\<close>, has kept the entry of every slot below
  \<open>size\<close>, has stored the new pair in the slot at index \<open>size\<close> and has increased
  \<open>size\<close> by one. The \<open>put\<close> does return when \<open>entries\<close> is not null, the byte size of
  the block of \<open>capacity\<close> slots fits \<open>size_t\<close> and, in case \<open>size = capacity\<close>, the byte
  size of the doubled block fits as well and \<open>realloc\<close> returns a block. In particular,
  when \<open>c + 1\<close> insertions into a container constructed with a capacity \<open>c \<ge> 1\<close> have
  returned, the capacity is \<open>2 * c > c\<close> and the pairs sit at their indices in insertion
  order; if their keys are strings, \<open>get\<close> with the key of any of the pairs returns the
  value of the earliest pair whose key has the same content, which is the value
  inserted with that key when the contents of the keys are pairwise distinct. These
  insertions all return when the allocator meets every request and the byte size of
  the doubled block fits \<open>size_t\<close>.
\<close>

theorem put_appends:
  "(Map_inv m \<and> 1 \<le> capacity m \<longrightarrow>
      size_m m \<le> capacity m \<and>
      (\<forall>m'. put g k v m = Inr m' \<longrightarrow>
         capacity m' = (if size_m m = capacity m then capacity m * 2 else capacity m) \<and>
         unat (capacity m') =
           (if size_m m = capacity m then 2 * unat (capacity m) else unat (capacity m)) \<and>
         (\<forall>i < unat (size_m m). entries m' ! i = entries m ! i) \<and>
         entries m' ! unat (size_m m) = Some \<lparr>key = k, value_p = v\<rparr> \<and>
         size_m m' = size_m m + 1 \<and> unat (size_m m') = Suc (unat (size_m m)) \<and>
         size_m m' \<le> capacity m') \<and>
      (entries m \<noteq> NULL \<and> unat (capacity m) < max_slots \<and>
       (size_m m = capacity m \<longrightarrow> 2 * unat (capacity m) < max_slots \<and> g)
         \<longrightarrow> (\<exists>m'. put g k v m = Inr m'))) \<and>
   (1 \<le> c \<and> length kvs = Suc (unat c) \<longrightarrow>
      (\<forall>m1. puts al kvs (Map_new a c) = Inr m1 \<longrightarrow>
         capacity m1 = c * 2 \<and> c < capacity m1 \<and>
         (\<forall>i < length kvs. entries m1 ! i = Some (entry_of (kvs ! i))) \<and>
         ((\<forall>kv \<in> set kvs. is_string mem (fst kv)) \<longrightarrow>
            (\<forall>kv \<in> set kvs.
               get mem m1 (fst kv) = Inr (Lookup mem (map entry_of kvs) (fst kv))) \<and>
            (distinct (map (\<lambda>kv. content mem (fst kv)) kvs) \<longrightarrow>
               (\<forall>kv \<in> set kvs. get mem m1 (fst kv) = Inr (snd kv))))) \<and>
      (grants al (length kvs) \<and> 2 * unat c < max_slots \<longrightarrow>
         (\<exists>m1. puts al kvs (Map_new True c) = Inr m1)))"
  (is "(?state \<longrightarrow> ?le \<and> ?effect \<and> (?fits \<longrightarrow> ?returns)) \<and>
       (?start \<longrightarrow> ?after \<and> (?small \<longrightarrow> ?all_return))")
proof (rule conjI)
  show "?state \<longrightarrow> ?le \<and> ?effect \<and> (?fits \<longrightarrow> ?returns)"
  proof
    assume ?state
    then have inv: "Map_inv m" and pos: "1 \<le> capacity m"
      by simp_all
    have ?le
      using inv by (rule Map_inv_size_le)
    moreover have ?effect
      using inv by (intro allI impI put_effect)
    moreover have "?fits \<longrightarrow> ?returns"
    proof
      assume fits: ?fits
      with pos have "roomy m"
        by (simp add: roomy_def)
      moreover from fits have "size_m m = capacity m \<Longrightarrow> g"
        by simp
      ultimately show ?returns
        using inv by (intro put_total)
    qed
    ultimately show "?le \<and> ?effect \<and> (?fits \<longrightarrow> ?returns)"
      by (intro conjI)
  qed
next
  show "?start \<longrightarrow> ?after \<and> (?small \<longrightarrow> ?all_return)"
  proof
    assume ?start
    then have pos: "1 \<le> c" and len: "length kvs = Suc (unat c)"
      by simp_all
    have ?after
    proof (intro allI impI)
      fix m1 assume run: "puts al kvs (Map_new a c) = Inr m1"
      note gr = growth_after [OF pos len run]
      have inv: "Map_inv m1"
        using gr by (elim conjE)
      have cap: "capacity m1 = c * 2"
        using gr by (elim conjE)
      have less: "c < capacity m1"
        using gr by (elim conjE)
      have st: "stored m1 = map entry_of kvs"
        using gr by (elim conjE)
      have nth: "\<forall>i < length kvs. entries m1 ! i = Some (entry_of (kvs ! i))"
        using gr by (elim conjE)
      have looked: "(\<forall>kv \<in> set kvs. is_string mem (fst kv)) \<longrightarrow>
            (\<forall>kv \<in> set kvs.
               get mem m1 (fst kv) = Inr (Lookup mem (map entry_of kvs) (fst kv))) \<and>
            (distinct (map (\<lambda>kv. content mem (fst kv)) kvs) \<longrightarrow>
               (\<forall>kv \<in> set kvs. get mem m1 (fst kv) = Inr (snd kv)))"
      proof (intro impI conjI ballI)
        fix kv
        assume strings: "\<forall>kv \<in> set kvs. is_string mem (fst kv)" and kv: "kv \<in> set kvs"
        then have "is_string mem (fst kv)"
          by simp
        with inv st strings
        show "get mem m1 (fst kv) = Inr (Lookup mem (map entry_of kvs) (fst kv))"
          by (rule get_of_stored)
      next
        fix kv
        assume strings: "\<forall>kv \<in> set kvs. is_string mem (fst kv)"
          and "distinct (map (\<lambda>kv. content mem (fst kv)) kvs)" and kv: "kv \<in> set kvs"
        then show "get mem m1 (fst kv) = Inr (snd kv)"
          using inv st by (intro get_of_distinct_keys [where kvs = kvs]) simp_all
      qed
      show "capacity m1 = c * 2 \<and> c < capacity m1 \<and>
         (\<forall>i < length kvs. entries m1 ! i = Some (entry_of (kvs ! i))) \<and>
         ((\<forall>kv \<in> set kvs. is_string mem (fst kv)) \<longrightarrow>
            (\<forall>kv \<in> set kvs.
               get mem m1 (fst kv) = Inr (Lookup mem (map entry_of kvs) (fst kv))) \<and>
            (distinct (map (\<lambda>kv. content mem (fst kv)) kvs) \<longrightarrow>
               (\<forall>kv \<in> set kvs. get mem m1 (fst kv) = Inr (snd kv))))"
        using cap less nth looked by (intro conjI)
    qed
    moreover have "?small \<longrightarrow> ?all_return"
    proof
      assume small: ?small
      then have "unat c < max_slots" and "2 * length kvs \<le> max_slots"
        using len by (simp_all add: max_slots_eq)
      moreover from small have "grants al (length kvs)"
        by simp
      ultimately show ?all_return
        using pos by (intro puts_Map_new_total)
    qed
    ultimately show "?after \<and> (?small \<longrightarrow> ?all_return)"
      by (intro conjI)
  qed
qed

theorem put_appends_witness:
  "Map_inv m_full \<and> 1 \<le> capacity m_full \<and> size_m m_full = capacity m_full \<and>
   entries m_full \<noteq> NULL \<and>
   unat (capacity m_full) < max_slots \<and> 2 * unat (capacity m_full) < max_slots \<and>
   put True 5 6 m_full = Inr m_abc \<and> capacity m_abc = capacity m_full * 2 \<and>
   unat (capacity m_abc) = 2 * unat (capacity m_full) \<and>
   entries m_abc ! unat (size_m m_full) = Some \<lparr>key = 5, value_p = 6\<rparr> \<and>
   unat (size_m m_abc) = Suc (unat (size_m m_full)) \<and>
   (1::size_t) \<le> 2 \<and> 2 * unat (2::size_t) < max_slots \<and>
   length [(11, 2), (3, 4), (5, 6) :: ptr \<times> ptr] = Suc (unat (2::size_t)) \<and>
   grants always (length [(11, 2), (3, 4), (5, 6) :: ptr \<times> ptr]) \<and>
   list_all (\<lambda>kv. is_string mem_ex (fst kv)) [(11, 2), (3, 4), (5, 6) :: ptr \<times> ptr] \<and>
   distinct (map (\<lambda>kv. content mem_ex (fst kv)) [(11, 2), (3, 4), (5, 6) :: ptr \<times> ptr]) \<and>
   puts always [(11, 2), (3, 4), (5, 6)] (Map_new True 2) = Inr m_abc \<and>
   (2::size_t) < capacity m_abc \<and> get mem_ex m_abc 3 = Inr 4"
proof -
  let ?kvs = "[(11, 2), (3, 4), (5, 6)] :: (ptr \<times> ptr) list"
  have pos: "1 \<le> capacity m_full" and full: "size_m m_full = capacity m_full"
    and f0: "entries m_full \<noteq> NULL"
    and f1: "unat (capacity m_full) < max_slots" and f2: "2 * unat (capacity m_full) < max_slots"
    by (simp_all add: m_full_def max_slots_eq NULL_def)
  have pre: "(1::size_t) \<le> 2" "length ?kvs = Suc (unat (2::size_t))"
    and small: "2 * unat (2::size_t) < max_slots"
    by (simp_all add: max_slots_eq)
  have g: "grants always (length ?kvs)"
    by (rule grants_always)
  have strings: "\<forall>kv \<in> set ?kvs. is_string mem_ex (fst kv)"
    by (simp add: is_string_ex)
  have strings': "list_all (\<lambda>kv. is_string mem_ex (fst kv)) ?kvs"
    using strings by (simp add: list_all_iff)
  have dist: "distinct (map (\<lambda>kv. content mem_ex (fst kv)) ?kvs)"
    by (simp add: content_ex)
  note inst = put_appends [of m_full True 5 6 2 ?kvs always True mem_ex]
  have "Map_inv m_full \<and> 1 \<le> capacity m_full"
    using Map_inv_full pos by (intro conjI)
  note one = inst [THEN conjunct1, THEN mp, OF this, THEN conjunct2]
  have "entries m_full \<noteq> NULL \<and> unat (capacity m_full) < max_slots \<and>
      (size_m m_full = capacity m_full \<longrightarrow> 2 * unat (capacity m_full) < max_slots \<and> True)"
    using f0 f1 f2 by simp
  from one [THEN conjunct2, THEN mp, OF this] obtain m' where m': "put True 5 6 m_full = Inr m'"
    by (elim exE)
  from m' put_full have same: "m' = m_abc"
    by simp
  note eff = one [THEN conjunct1, THEN spec, THEN mp, OF m', unfolded same]
  have "capacity m_abc =
      (if size_m m_full = capacity m_full then capacity m_full * 2 else capacity m_full)"
    using eff by (elim conjE)
  with full have s1: "capacity m_abc = capacity m_full * 2"
    by simp
  have "unat (capacity m_abc) = (if size_m m_full = capacity m_full
      then 2 * unat (capacity m_full) else unat (capacity m_full))"
    using eff by (elim conjE)
  with full have s2: "unat (capacity m_abc) = 2 * unat (capacity m_full)"
    by simp
  have s4: "entries m_abc ! unat (size_m m_full) = Some \<lparr>key = 5, value_p = 6\<rparr>"
    using eff by (elim conjE)
  have s5: "unat (size_m m_abc) = Suc (unat (size_m m_full))"
    using eff by (elim conjE)
  have "1 \<le> (2::size_t) \<and> length ?kvs = Suc (unat (2::size_t))"
    using pre by (intro conjI)
  note many = inst [THEN conjunct2, THEN mp, OF this]
  have "grants always (length ?kvs) \<and> 2 * unat (2::size_t) < max_slots"
    using g small by (intro conjI)
  from many [THEN conjunct2, THEN mp, OF this]
  obtain m1 where m1: "puts always ?kvs (Map_new True 2) = Inr m1"
    by (elim exE)
  from m1 puts_abc have same1: "m1 = m_abc"
    by simp
  note aft = many [THEN conjunct1, THEN spec, THEN mp, OF m1, unfolded same1]
  have t1: "2 < capacity m_abc"
    using aft by (elim conjE)
  have "(\<forall>kv \<in> set ?kvs. is_string mem_ex (fst kv)) \<longrightarrow>
      (\<forall>kv \<in> set ?kvs.
         get mem_ex m_abc (fst kv) = Inr (Lookup mem_ex (map entry_of ?kvs) (fst kv))) \<and>
      (distinct (map (\<lambda>kv. content mem_ex (fst kv)) ?kvs) \<longrightarrow>
         (\<forall>kv \<in> set ?kvs. get mem_ex m_abc (fst kv) = Inr (snd kv)))"
    using aft by (elim conjE)
  from this [THEN mp, OF strings, THEN conjunct2, THEN mp, OF dist]
  have t2: "get mem_ex m_abc 3 = Inr 4"
    by simp
  show ?thesis
    using Map_inv_full pos full f0 f1 f2 put_full s1 s2 s4 s5 pre(1) small pre(2) g strings' dist
      puts_abc t1 t2
    by (intro conjI)
qed

text \<open>
  Claim C6 (size and capacity). Construct a container with an initial capacity of at
  least 1: its size is 0 and at most its capacity. After any sequence of insertions,
  and after each of its initial segments, the size is the number of insertions made
  and is at most the capacity, whatever the allocator answered. The insertions all
  return when the allocator meets every request and the initial capacity and twice
  their number stay within \<open>max_slots\<close>.
\<close>

theorem size_counts_insertions:
  assumes "1 \<le> c"
  shows "size_m (Map_new a c) = 0 \<and> size_m (Map_new a c) \<le> capacity (Map_new a c) \<and>
    (\<forall>m. puts al kvs (Map_new a c) = Inr m \<longrightarrow>
       unat (size_m m) = length kvs \<and> size_m m \<le> capacity m \<and>
       (\<forall>n \<le> length kvs. \<exists>m'. puts al (take n kvs) (Map_new a c) = Inr m' \<and>
          unat (size_m m') = n \<and> size_m m' \<le> capacity m')) \<and>
    (grants al (length kvs) \<and> unat c < max_slots \<and> 2 * length kvs \<le> max_slots \<longrightarrow>
       (\<exists>m. puts al kvs (Map_new True c) = Inr m))"
proof (intro conjI allI impI)
  show "size_m (Map_new a c) = 0"
    by (simp add: Map_new_def)
  show "size_m (Map_new a c) \<le> capacity (Map_new a c)"
    by (simp add: Map_new_def)
next
  fix m assume run: "puts al kvs (Map_new a c) = Inr m"
  have zero: "unat (size_m (Map_new a c)) = 0"
    by (simp add: Map_new_def)
  show "unat (size_m m) = length kvs"
    using puts_Inr [OF Map_new_inv run] zero by simp
  show "size_m m \<le> capacity m"
    using puts_Inr [OF Map_new_inv run] by (simp add: Map_inv_size_le)
  fix n assume n: "n \<le> length kvs"
  from puts_prefix [OF run] obtain m1 where m1: "puts al (take n kvs) (Map_new a c) = Inr m1"
    by blast
  have "unat (size_m m1) = n" and "size_m m1 \<le> capacity m1"
    using puts_Inr [OF Map_new_inv m1] zero n by (simp_all add: Map_inv_size_le)
  with m1 show "\<exists>m'. puts al (take n kvs) (Map_new a c) = Inr m' \<and>
        unat (size_m m') = n \<and> size_m m' \<le> capacity m'"
    by blast
next
  assume "grants al (length kvs) \<and> unat c < max_slots \<and> 2 * length kvs \<le> max_slots"
  then show "\<exists>m. puts al kvs (Map_new True c) = Inr m"
    using assms by (intro puts_Map_new_total) simp_all
qed

theorem size_counts_insertions_witness:
  "(1::size_t) \<le> 2 \<and> grants always (length [(11, 2), (3, 4), (5, 6) :: ptr \<times> ptr]) \<and>
   unat (2::size_t) < max_slots \<and>
   2 * length [(11, 2), (3, 4), (5, 6) :: ptr \<times> ptr] \<le> max_slots \<and>
   puts always [(11, 2), (3, 4), (5, 6)] (Map_new True 2) = Inr m_abc \<and>
   unat (size_m m_abc) = length [(11, 2), (3, 4), (5, 6) :: ptr \<times> ptr] \<and>
   size_m m_abc \<le> capacity m_abc \<and>
   puts always (take 2 [(11, 2), (3, 4), (5, 6)]) (Map_new True 2) = Inr m_full \<and>
   unat (size_m m_full) = 2 \<and> size_m m_full \<le> capacity m_full"
proof -
  let ?kvs = "[(11, 2), (3, 4), (5, 6)] :: (ptr \<times> ptr) list"
  have h1: "(1::size_t) \<le> 2"
    by simp
  note inst = size_counts_insertions [OF h1, where kvs = ?kvs and al = always and a = True,
      THEN conjunct2, THEN conjunct2]
  have g: "grants always (length ?kvs)"
    by (rule grants_always)
  have b1: "unat (2::size_t) < max_slots" and b2: "2 * length ?kvs \<le> max_slots"
    by (simp_all add: max_slots_eq)
  have "grants always (length ?kvs) \<and> unat (2::size_t) < max_slots \<and>
      2 * length ?kvs \<le> max_slots"
    using g b1 b2 by (intro conjI)
  from inst [THEN conjunct2, THEN mp, OF this]
  obtain m where m: "puts always ?kvs (Map_new True 2) = Inr m"
    by (elim exE)
  from m puts_abc have same0: "m = m_abc"
    by simp
  note after = inst [THEN conjunct1, THEN spec, THEN mp, OF m, unfolded same0]
  have two: "puts always (take 2 ?kvs) (Map_new True 2) = Inr m_full"
    using puts_full by simp
  have a1: "unat (size_m m_abc) = length ?kvs"
    using after by (elim conjE)
  have a2: "size_m m_abc \<le> capacity m_abc"
    using after by (elim conjE)
  have all: "\<forall>n \<le> length ?kvs. \<exists>m'. puts always (take n ?kvs) (Map_new True 2) = Inr m' \<and>
      unat (size_m m') = n \<and> size_m m' \<le> capacity m'"
    using after by (elim conjE)
  have "2 \<le> length ?kvs"
    by simp
  from all [rule_format, OF this]
  obtain m' where m': "puts always (take 2 ?kvs) (Map_new True 2) = Inr m'"
    and c1: "unat (size_m m') = 2" and c2: "size_m m' \<le> capacity m'"
    by (elim exE conjE)
  from m' two have same: "m' = m_full"
    by simp
  have a3: "unat (size_m m_full) = 2" and a4: "size_m m_full \<le> capacity m_full"
    using c1 c2 unfolding same .
  show ?thesis
    using h1 g b1 b2 puts_abc a1 a2 two a3 a4 by (intro conjI)
qed

text \<open>
  Claim C9 (the capacity only grows). In every container state the conditional of
  \<open>put\<close> leaves a capacity that is at least the old one, and so do a \<open>put\<close> that returns,
  a sequence of them, and a \<open>get\<close>, whatever the allocator answered. When the capacity
  is at least 1 and \<open>size = capacity\<close>, the new capacity is twice the old one and
  strictly greater, so \<open>size\<close> lies below it; and when \<open>realloc\<close> returns a block and the
  byte size of the doubled block fits \<open>size_t\<close>, the new block has the slot at index
  \<open>size\<close> and \<open>put\<close> returns.
\<close>

theorem capacity_never_shrinks:
  assumes "Map_inv m"
  shows "capacity m \<le> capacity (grow g m) \<and>
    (\<forall>k v m'. put g k v m = Inr m' \<longrightarrow> capacity m \<le> capacity m') \<and>
    (\<forall>al kvs m'. puts al kvs m = Inr m' \<longrightarrow> capacity m \<le> capacity m') \<and>
    (\<forall>mem k m' r. exec mem g (Get k) m = Inr (m', r) \<longrightarrow> capacity m' = capacity m) \<and>
    (1 \<le> capacity m \<and> size_m m = capacity m \<longrightarrow>
       capacity (grow g m) = capacity m * 2 \<and>
       unat (capacity (grow g m)) = 2 * unat (capacity m) \<and>
       capacity m < capacity (grow g m) \<and> size_m m < capacity (grow g m) \<and>
       (2 * unat (capacity m) < max_slots \<longrightarrow>
          unat (size_m m) < length (entries (grow True m)) \<and>
          (\<forall>k v. \<exists>m'. put True k v m = Inr m')))"
proof (intro conjI allI impI)
  show "capacity m \<le> capacity (grow g m)"
    using assms by (rule grow_capacity_mono)
next
  fix k v m' assume "put g k v m = Inr m'"
  then show "capacity m \<le> capacity m'"
    using put_Inr(5) [OF assms] grow_capacity_mono [OF assms] by simp
next
  fix al kvs m' assume "puts al kvs m = Inr m'"
  then show "capacity m \<le> capacity m'"
    using puts_Inr [OF assms] by simp
next
  fix mem k m' r assume "exec mem g (Get k) m = Inr (m', r)"
  then show "capacity m' = capacity m"
    by (auto split: sum.splits)
next
  assume full: "1 \<le> capacity m \<and> size_m m = capacity m"
  then show "capacity (grow g m) = capacity m * 2"
    by (simp add: grow_capacity)
  from full show "unat (capacity (grow g m)) = 2 * unat (capacity m)"
    and "capacity m < capacity (grow g m)" and "size_m m < capacity (grow g m)"
    using grow_capacity_strict [OF assms] by simp_all
  assume small: "2 * unat (capacity m) < max_slots"
  have "entries m \<noteq> NULL"
    using assms full by (intro full_block) simp_all
  with full small have "roomy m"
    by (simp add: roomy_def)
  from put_total [OF assms this] show "\<exists>m'. put True k v m = Inr m'" for k v
    by simp
  then obtain m' where "put True 0 0 m = Inr m'"
    by blast
  then show "unat (size_m m) < length (entries (grow True m))"
    by (simp add: put_def store_def grow_size split: if_splits)
qed

theorem capacity_never_shrinks_witness:
  "Map_inv m_full \<and> 1 \<le> capacity m_full \<and> size_m m_full = capacity m_full \<and>
   2 * unat (capacity m_full) < max_slots \<and> put True 5 6 m_full = Inr m_abc \<and>
   capacity m_full \<le> capacity m_abc \<and>
   unat (capacity (grow True m_full)) = 2 * unat (capacity m_full) \<and>
   capacity m_full < capacity (grow True m_full) \<and>
   size_m m_full < capacity (grow True m_full) \<and>
   unat (size_m m_full) < length (entries (grow True m_full))"
proof -
  have pre: "1 \<le> capacity m_full \<and> size_m m_full = capacity m_full"
    and small: "2 * unat (capacity m_full) < max_slots"
    by (simp_all add: m_full_def max_slots_eq)
  note inst = capacity_never_shrinks [OF Map_inv_full, where g = True]
  have "\<forall>k v m'. put True k v m_full = Inr m' \<longrightarrow> capacity m_full \<le> capacity m'"
    using inst by (elim conjE)
  from this [rule_format, OF put_full] have a1: "capacity m_full \<le> capacity m_abc" .
  have "1 \<le> capacity m_full \<and> size_m m_full = capacity m_full \<longrightarrow>
       capacity (grow True m_full) = capacity m_full * 2 \<and>
       unat (capacity (grow True m_full)) = 2 * unat (capacity m_full) \<and>
       capacity m_full < capacity (grow True m_full) \<and>
       size_m m_full < capacity (grow True m_full) \<and>
       (2 * unat (capacity m_full) < max_slots \<longrightarrow>
          unat (size_m m_full) < length (entries (grow True m_full)) \<and>
          (\<forall>k v. \<exists>m'. put True k v m_full = Inr m'))"
    using inst by (elim conjE)
  note grown = this [THEN mp, OF pre]
  have a2: "unat (capacity (grow True m_full)) = 2 * unat (capacity m_full)"
    using grown by (elim conjE)
  have a3: "capacity m_full < capacity (grow True m_full)"
    using grown by (elim conjE)
  have a4: "size_m m_full < capacity (grow True m_full)"
    using grown by (elim conjE)
  have rest: "2 * unat (capacity m_full) < max_slots \<longrightarrow>
          unat (size_m m_full) < length (entries (grow True m_full)) \<and>
          (\<forall>k v. \<exists>m'. put True k v m_full = Inr m')"
    using grown by (elim conjE)
  from rest [THEN mp, OF small]
  have a5: "unat (size_m m_full) < length (entries (grow True m_full))"
    by (elim conjE)
  show ?thesis
    using Map_inv_full pre [THEN conjunct1] pre [THEN conjunct2] small put_full a1 a2 a3 a4 a5
    by (intro conjI)
qed

section \<open>Construction\<close>

text \<open>
  Claim C4 (the constructor and a capacity of zero), as the claim words it, has the
  constructor refuse the capacity 0. The constructor returns a container for it,
  whatever \<open>malloc\<close> returned, and the conditional of \<open>put\<close> leaves the capacity of that
  container at 0. A negative argument reaches the \<open>size_t\<close> parameter as a large value
  and is taken as well: \<open>-1\<close> becomes a capacity of \<open>2 ^ 64 - 1\<close>.
\<close>

theorem Map_new_accepts_zero:
  "Map_new True 0 = \<lparr>entries = [], size_m = 0, capacity = 0\<rparr> \<and>
   Map_new False 0 = \<lparr>entries = [], size_m = 0, capacity = 0\<rparr> \<and>
   capacity (grow True (Map_new True 0)) = capacity (Map_new True 0) \<and>
   size_m (Map_new False (- 1)) = 0 \<and>
   unat (capacity (Map_new False (- 1))) = 18446744073709551615"
  by (simp add: Map_new_def malloc_def NULL_def grow_def realloc_def alloc_slots_def
      sizeof_Entry_def unsigned_minus_1_eq_mask mask_eq_exp_minus_1)

text \<open>
  Claim C4, amended. The constructor checks nothing and signals nothing: for every
  initial capacity, zero and the converted negative values included, and whatever
  \<open>malloc\<close> returned, it yields a container with size 0 and with the capacity it was
  given, on which \<open>get\<close> returns the null pointer for every key. In the container that
  it yields for the capacity 0 the conditional of \<open>put\<close> leaves the capacity at 0,
  whatever \<open>realloc\<close> returns, and no \<open>put\<close> returns: each one stores outside the block.
\<close>

theorem Map_new_checks_nothing:
  "size_m (Map_new a c) = 0 \<and> capacity (Map_new a c) = c \<and>
   get mem (Map_new a c) q = Inr nullptr \<and>
   capacity (grow g (Map_new a 0)) = 0 \<and>
   put g k v (Map_new a 0) = Inl Out_Of_Bounds"
proof (intro conjI)
  show "size_m (Map_new a c) = 0" and "capacity (Map_new a c) = c"
    by (simp_all add: Map_new_def)
  show "get mem (Map_new a c) q = Inr nullptr"
    by (simp add: get_scan Map_new_inv stored_Map_new)
  show "capacity (grow g (Map_new a 0)) = 0"
    by (simp add: grow_def Map_new_def)
  show "put g k v (Map_new a 0) = Inl Out_Of_Bounds"
    by (simp add: put_def store_def grow_def Map_new_def malloc_def realloc_def NULL_def
        alloc_slots_def)
qed

theorem Map_new_checks_nothing_witness:
  "size_m (Map_new True 0) = 0 \<and> capacity (Map_new True 0) = 0 \<and>
   get mem_ex (Map_new True 0) 9 = Inr nullptr \<and>
   capacity (grow True (Map_new True 0)) = 0 \<and>
   put True 11 2 (Map_new True 0) = Inl Out_Of_Bounds"
  using Map_new_checks_nothing [of True 0 mem_ex 9 True 11 2] .

section \<open>What a lookup leaves and what the initial capacity decides\<close>

text \<open>
  Claim C8 (a lookup has no effect). A \<open>get\<close> call that returns leaves the container
  state as it was: entries, size and capacity are the same, and the same call on the
  state it left returns the same result. In a container state whose stored keys and
  query key are strings the call does return. In a run of calls, the final state is the
  one that the \<open>put\<close> calls alone produce.
\<close>

theorem get_leaves_state:
  "(exec mem g (Get k) m = Inr (m', r) \<longrightarrow>
      m' = m \<and> entries m' = entries m \<and> size_m m' = size_m m \<and> capacity m' = capacity m \<and>
      exec mem g (Get k) m' = Inr (m', r)) \<and>
   (Map_inv m \<and> keys_valid mem (stored m) \<and> is_string mem k \<longrightarrow>
      (\<exists>p. exec mem g (Get k) m = Inr (m, Some p))) \<and>
   (run mem al cs m = Inr (m'', rs) \<longrightarrow> puts al (inserted cs) m = Inr m'')"
proof (intro conjI impI)
  assume a: "exec mem g (Get k) m = Inr (m', r)"
  then have "m' = m"
    by (auto split: sum.splits)
  with a show "m' = m" and "entries m' = entries m" and "size_m m' = size_m m"
    and "capacity m' = capacity m" and "exec mem g (Get k) m' = Inr (m', r)"
    by simp_all
next
  assume "Map_inv m \<and> keys_valid mem (stored m) \<and> is_string mem k"
  then have "get mem m k = Inr (Lookup mem (stored m) k)"
    by (simp add: get_scan scan_Lookup)
  then show "\<exists>p. exec mem g (Get k) m = Inr (m, Some p)"
    by simp
next
  assume "run mem al cs m = Inr (m'', rs)"
  then show "puts al (inserted cs) m = Inr m''"
    by (rule run_state)
qed

theorem get_leaves_state_witness:
  "exec mem_ex True (Get 10) m_abc = Inr (m_abc, Some 4) \<and>
   Map_inv m_abc \<and> keys_valid mem_ex (stored m_abc) \<and> is_string mem_ex 10 \<and>
   run mem_ex always [Put 11 2, Get 11, Put 3 4, Put 5 6, Get 9] (Map_new True 2) =
     Inr (m_abc, [None, Some 2, None, None, Some nullptr]) \<and>
   puts always (inserted [Put 11 2, Get 11, Put 3 4, Put 5 6, Get 9]) (Map_new True 2)
     = Inr m_abc"
proof -
  have valid: "Map_inv m_abc \<and> keys_valid mem_ex (stored m_abc) \<and> is_string mem_ex 10"
    using Map_inv_abc keys_valid_abc is_string_ex(7) by (intro conjI)
  from get_leaves_state [where mem = mem_ex and k = 10 and m = m_abc and g = True,
      THEN conjunct2, THEN conjunct1, THEN mp, OF valid]
  obtain p where returns: "exec mem_ex True (Get 10) m_abc = Inr (m_abc, Some p)"
    by (elim exE)
  have "get mem_ex m_abc 10 = Inr 4"
    unfolding m_abc_def by code_simp
  with returns have once: "exec mem_ex True (Get 10) m_abc = Inr (m_abc, Some 4)"
    by simp
  have whole: "run mem_ex always [Put 11 2, Get 11, Put 3 4, Put 5 6, Get 9] (Map_new True 2) =
      Inr (m_abc, [None, Some 2, None, None, Some nullptr])"
    unfolding m_abc_def by code_simp
  have final: "puts always (inserted [Put 11 2, Get 11, Put 3 4, Put 5 6, Get 9])
      (Map_new True 2) = Inr m_abc"
    using get_leaves_state [where mem = mem_ex and m = "Map_new True 2" and m'' = m_abc
        and al = always and cs = "[Put 11 2, Get 11, Put 3 4, Put 5 6, Get 9]"
        and rs = "[None, Some 2, None, None, Some nullptr]",
        THEN conjunct2, THEN conjunct2, THEN mp, OF whole] .
  show ?thesis
    using once Map_inv_abc keys_valid_abc is_string_ex(7) whole final by (intro conjI)
qed

text \<open>
  Claim C10 (the initial capacity does not show in lookups). Two containers constructed
  with initial capacities of at least 1 and given the same sequence of insertions
  answer every \<open>get\<close> alike, whatever the memory and the query key, and whatever the
  allocator answered to each of them. The insertions return on both when the allocator
  meets every request and both capacities and twice the number of insertions stay
  within \<open>max_slots\<close>.
\<close>

theorem lookup_independent_of_capacity:
  assumes "1 \<le> c1" and "1 \<le> c2"
  shows "(\<forall>m1 m2. puts al1 kvs (Map_new a1 c1) = Inr m1 \<and>
                  puts al2 kvs (Map_new a2 c2) = Inr m2 \<longrightarrow>
            get mem m1 q = get mem m2 q) \<and>
    (grants al1 (length kvs) \<and> grants al2 (length kvs) \<and>
     unat c1 < max_slots \<and> unat c2 < max_slots \<and> 2 * length kvs \<le> max_slots \<longrightarrow>
       (\<exists>m1 m2. puts al1 kvs (Map_new True c1) = Inr m1 \<and>
                puts al2 kvs (Map_new True c2) = Inr m2))"
proof (intro conjI allI impI)
  fix m1 m2
  assume runs: "puts al1 kvs (Map_new a1 c1) = Inr m1 \<and> puts al2 kvs (Map_new a2 c2) = Inr m2"
  have "Map_inv m1" and "stored m1 = map entry_of kvs"
    using puts_Inr [OF Map_new_inv runs [THEN conjunct1]] by (simp_all add: stored_Map_new)
  moreover have "Map_inv m2" and "stored m2 = map entry_of kvs"
    using puts_Inr [OF Map_new_inv runs [THEN conjunct2]] by (simp_all add: stored_Map_new)
  ultimately show "get mem m1 q = get mem m2 q"
    by (simp add: get_scan)
next
  assume small: "grants al1 (length kvs) \<and> grants al2 (length kvs) \<and>
     unat c1 < max_slots \<and> unat c2 < max_slots \<and> 2 * length kvs \<le> max_slots"
  have "\<exists>m1. puts al1 kvs (Map_new True c1) = Inr m1"
    using assms(1) small by (intro puts_Map_new_total) simp_all
  moreover have "\<exists>m2. puts al2 kvs (Map_new True c2) = Inr m2"
    using assms(2) small by (intro puts_Map_new_total) simp_all
  ultimately show "\<exists>m1 m2. puts al1 kvs (Map_new True c1) = Inr m1 \<and>
      puts al2 kvs (Map_new True c2) = Inr m2"
    by blast
qed

theorem lookup_independent_of_capacity_witness:
  "(1::size_t) \<le> 2 \<and> (1::size_t) \<le> 3 \<and>
   puts always [(11, 2), (3, 4), (5, 6)] (Map_new True 2) = Inr m_abc \<and>
   puts always [(11, 2), (3, 4), (5, 6)] (Map_new True 3) = Inr m_abc3 \<and>
   capacity m_abc \<noteq> capacity m_abc3 \<and>
   get mem_ex m_abc 10 = get mem_ex m_abc3 10"
proof -
  have h1: "(1::size_t) \<le> 2" and h2: "(1::size_t) \<le> 3"
    by simp_all
  have "puts always [(11, 2), (3, 4), (5, 6)] (Map_new True 2) = Inr m_abc \<and>
      puts always [(11, 2), (3, 4), (5, 6)] (Map_new True 3) = Inr m_abc3"
    using puts_abc puts_abc3 by (intro conjI)
  from lookup_independent_of_capacity [OF h1 h2, THEN conjunct1, THEN spec, THEN spec,
      THEN mp, OF this]
  have same: "get mem_ex m_abc 10 = get mem_ex m_abc3 10" .
  have differ: "capacity m_abc \<noteq> capacity m_abc3"
    by (simp add: m_abc_def m_abc3_def)
  show ?thesis
    using h1 h2 puts_abc puts_abc3 differ same by (intro conjI)
qed

end
